theory Spec2Isabelle
  imports Complex_Main
begin

section \<open>Values of the Python programs\<close>

text \<open>
  The three modules under \<^verbatim>\<open>plb/optimizer\<close> are Python. A raised exception is a
  value of \<open>py_error\<close>, and a function that can raise returns \<open>py_error + 'a\<close>
  (\<open>Inl\<close> the exception).
\<close>

datatype py_error =
    IndexError | TypeError | ZeroDivisionError | UnboundLocalError | KeyError
  | NotImplementedError

text \<open>
  A Python, numpy or torch float is one of: not-a-number, plus or minus infinity, or a
  finite number. Finite numbers are taken as reals: rounding and overflow to infinity
  are not modelled. What the programs decide on floats (the NaN test, the clamp, the
  comparison \<^verbatim>\<open><\<close>) is modelled on all four kinds.
\<close>

datatype fval = NaN | PInf | NInf | Fin real

fun isnan :: "fval \<Rightarrow> bool" where
  "isnan NaN = True"
| "isnan PInf = False"
| "isnan NInf = False"
| "isnan (Fin x) = False"

text \<open>\<^verbatim>\<open>a < b\<close> on floats: false whenever one side is NaN.\<close>

fun flt :: "fval \<Rightarrow> fval \<Rightarrow> bool" where
  "flt NaN b = False"
| "flt a NaN = False"
| "flt PInf b = False"
| "flt a NInf = False"
| "flt NInf b = True"
| "flt a PInf = True"
| "flt (Fin x) (Fin y) = (x < y)"

text \<open>\<^verbatim>\<open>a + b\<close> on floats.\<close>

fun fadd :: "fval \<Rightarrow> fval \<Rightarrow> fval" where
  "fadd NaN b = NaN"
| "fadd a NaN = NaN"
| "fadd PInf NInf = NaN"
| "fadd NInf PInf = NaN"
| "fadd PInf b = PInf"
| "fadd a PInf = PInf"
| "fadd NInf b = NInf"
| "fadd a NInf = NInf"
| "fadd (Fin x) (Fin y) = Fin (x + y)"

text \<open>
  \<^verbatim>\<open>a / n\<close> for a float \<open>a\<close> and a Python int \<open>n\<close>, here a count and so a natural
  number. Dividing a Python float by zero raises.
\<close>

fun fdiv_count :: "fval \<Rightarrow> nat \<Rightarrow> py_error + fval" where
  "fdiv_count a 0 = Inl ZeroDivisionError"
| "fdiv_count NaN (Suc n) = Inr NaN"
| "fdiv_count PInf (Suc n) = Inr PInf"
| "fdiv_count NInf (Suc n) = Inr NInf"
| "fdiv_count (Fin x) (Suc n) = Inr (Fin (x / real (Suc n)))"

text \<open>
  A numpy array or torch tensor of floats, of any rank: a scalar, or a sequence of
  arrays along the first axis. \<^verbatim>\<open>len(a)\<close> and \<^verbatim>\<open>a[i]\<close> act on the first axis.
\<close>

datatype nd = Scalar fval | Dim "nd list"

text \<open>The elements of an array, in row-major order.\<close>

primrec elems :: "nd \<Rightarrow> fval list" where
  "elems (Scalar v) = [v]"
| "elems (Dim xs) = concat (map elems xs)"

text \<open>\<^verbatim>\<open>torch.clamp(-1, 1)\<close> on one element: \<^verbatim>\<open>min(max(x, -1), 1)\<close>, and NaN stays NaN.\<close>

fun clamp1 :: "fval \<Rightarrow> fval" where
  "clamp1 NaN = NaN"
| "clamp1 PInf = Fin 1"
| "clamp1 NInf = Fin (- 1)"
| "clamp1 (Fin x) = Fin (min (max x (- 1)) 1)"

text \<open>\<^verbatim>\<open>t.clamp(-1, 1)\<close>: element-wise, the shape is kept.\<close>

primrec clamp :: "nd \<Rightarrow> nd" where
  "clamp (Scalar v) = Scalar (clamp1 v)"
| "clamp (Dim xs) = Dim (map clamp xs)"

text \<open>\<^verbatim>\<open>torch.isnan(t).any()\<close>.\<close>

definition any_nan :: "nd \<Rightarrow> bool" where
  "any_nan t = list_ex isnan (elems t)"

text \<open>\<^verbatim>\<open>xs[i]\<close> for a loop index \<open>i\<close> (never negative): out of range raises.\<close>

definition py_nth :: "'a list \<Rightarrow> nat \<Rightarrow> py_error + 'a" where
  "py_nth xs i = (if i < length xs then Inr (xs ! i) else Inl IndexError)"

section \<open>Programs with state and exceptions\<close>

text \<open>
  A Python function that mutates state and can raise is a function from the state to a
  result and the state it leaves: the state is kept when an exception is raised, as it is
  in Python. \<open>bnd\<close> is sequencing, \<open>for_each xs body\<close> is \<^verbatim>\<open>for x in xs: body\<close>.
\<close>

type_synonym ('a, 's) prog = "'s \<Rightarrow> (py_error + 'a) \<times> 's"

definition ret :: "'a \<Rightarrow> ('a, 's) prog" where
  "ret x s = (Inr x, s)"

definition raise :: "py_error \<Rightarrow> ('a, 's) prog" where
  "raise e s = (Inl e, s)"

definition bnd :: "('a, 's) prog \<Rightarrow> ('a \<Rightarrow> ('b, 's) prog) \<Rightarrow> ('b, 's) prog" where
  "bnd m f s = (case m s of (Inl e, s') \<Rightarrow> (Inl e, s') | (Inr x, s') \<Rightarrow> f x s')"

definition lift_res :: "py_error + 'a \<Rightarrow> ('a, 's) prog" where
  "lift_res r s = (r, s)"

definition modify :: "('s \<Rightarrow> 's) \<Rightarrow> (unit, 's) prog" where
  "modify f s = (Inr (), f s)"

definition gets :: "('s \<Rightarrow> 'a) \<Rightarrow> ('a, 's) prog" where
  "gets f s = (Inr (f s), s)"

primrec for_each :: "'a list \<Rightarrow> ('a \<Rightarrow> (unit, 's) prog) \<Rightarrow> (unit, 's) prog" where
  "for_each [] body = ret ()"
| "for_each (x # xs) body = bnd (body x) (\<lambda>u. for_each xs body)"

text \<open>
  \<^verbatim>\<open>with ...: body\<close>: the exit handler \<open>fin\<close> runs whether \<open>body\<close> raised or not.
\<close>

definition ensuring :: "('a, 's) prog \<Rightarrow> (unit, 's) prog \<Rightarrow> ('a, 's) prog" where
  "ensuring m fin s =
     (case m s of (r, s') \<Rightarrow>
        (case fin s' of (Inl e, s'') \<Rightarrow> (Inl e, s'') | (Inr u, s'') \<Rightarrow> (r, s'')))"

section \<open>The rollout coordinator\<close>

subsection \<open>Effective rollout length\<close>

text \<open>
  Both \<^verbatim>\<open>forward\<close> closures of \<^verbatim>\<open>solve_multistep\<close> and the one of
  \<^verbatim>\<open>exec_multistep\<close> start with
  \<^verbatim>\<open>
    if self.steps == None:
        steps = len(targets)
    else:
        steps = self.steps if ((self.steps<len(targets))and (self.steps>0)) else len(targets)
  \<close>
  \<open>self.steps\<close> is the configured step count (\<^verbatim>\<open>args.horizon\<close>, an int, or None);
  the second argument here is \<^verbatim>\<open>len(targets)\<close>.
\<close>

definition rollout_steps :: "int option \<Rightarrow> nat \<Rightarrow> nat" where
  "rollout_steps steps len_targets =
     (case steps of
        None \<Rightarrow> len_targets
      | Some s \<Rightarrow> if s < int len_targets \<and> s > 0 then nat s else len_targets)"

subsection \<open>Objects shared with the caller\<close>

text \<open>
  \<^verbatim>\<open>state\<close>, \<^verbatim>\<open>actions\<close> and \<^verbatim>\<open>targets\<close> are references to objects the caller
  keeps: \<^verbatim>\<open>state\<close> a Python list of numpy arrays
  (\<^verbatim>\<open>list(mpi.batch_collate(..., toNumpy=True))\<close>), the other two sequences of arrays.
  The store is the list of all objects, an address is an index into it, and a new
  object goes to the end. An address that holds no object of the kind an operation
  needs is an ill-typed argument (TypeError); a state whose items are not arrays is
  refused in this way by \<open>deepcopy\<close>, which is written for the list of arrays the
  training loops pass.
\<close>

type_synonym addr = nat

datatype obj = Arr nd | PyList "addr list"

text \<open>
  The state a coordinator call works on: the store, the simulator (with the model's
  buffers) and what \<^verbatim>\<open>mpi.msg\<close> has printed, oldest first.
\<close>

record 'e world =
  heap :: "obj list"
  sim :: 'e
  msgs :: "string list"

definition read_list :: "addr \<Rightarrow> (addr list, 'e world) prog" where
  "read_list a w =
     (if a < length (heap w)
      then (case heap w ! a of PyList xs \<Rightarrow> Inr xs | Arr v \<Rightarrow> Inl TypeError)
      else Inl TypeError, w)"

definition read_array :: "addr \<Rightarrow> (nd, 'e world) prog" where
  "read_array a w =
     (if a < length (heap w)
      then (case heap w ! a of Arr v \<Rightarrow> Inr v | PyList xs \<Rightarrow> Inl TypeError)
      else Inl TypeError, w)"

definition new_object :: "obj \<Rightarrow> (addr, 'e world) prog" where
  "new_object ob w = (Inr (length (heap w)), w\<lparr>heap := heap w @ [ob]\<rparr>)"

text \<open>\<^verbatim>\<open>l[i] = a\<close> on a Python list.\<close>

definition list_setitem :: "addr \<Rightarrow> nat \<Rightarrow> addr \<Rightarrow> (unit, 'e world) prog" where
  "list_setitem l i a =
     bnd (read_list l) (\<lambda>xs.
       if i < length xs
       then modify (\<lambda>w. w\<lparr>heap := (heap w)[l := PyList (xs[i := a])]\<rparr>)
       else raise IndexError)"

text \<open>\<^verbatim>\<open>l[i]\<close> on a Python list: the address of the item.\<close>

definition list_getitem :: "addr \<Rightarrow> nat \<Rightarrow> (addr, 'e world) prog" where
  "list_getitem l i = bnd (read_list l) (\<lambda>xs. lift_res (py_nth xs i))"

text \<open>
  \<^verbatim>\<open>len(s)\<close> and \<^verbatim>\<open>s[i]\<close> for a sequence of arrays: a Python list of arrays, or an
  array indexed along its first axis (\<^verbatim>\<open>len\<close> of a rank-0 array raises TypeError,
  indexing it IndexError).
\<close>

definition seq_len :: "addr \<Rightarrow> (nat, 'e world) prog" where
  "seq_len a w =
     (if a < length (heap w)
      then (case heap w ! a of
              PyList xs \<Rightarrow> Inr (length xs)
            | Arr (Dim xs) \<Rightarrow> Inr (length xs)
            | Arr (Scalar v) \<Rightarrow> Inl TypeError)
      else Inl TypeError, w)"

definition seq_item :: "addr \<Rightarrow> nat \<Rightarrow> (nd, 'e world) prog" where
  "seq_item a i w =
     (if a < length (heap w)
      then (case heap w ! a of
              PyList xs \<Rightarrow> (case py_nth xs i of Inl e \<Rightarrow> (Inl e, w) | Inr b \<Rightarrow> read_array b w)
            | Arr (Dim xs) \<Rightarrow> (py_nth xs i, w)
            | Arr (Scalar v) \<Rightarrow> (Inl IndexError, w))
      else (Inl TypeError, w))"

text \<open>The arrays of a list of arrays, as the simulator reads them.\<close>

primrec read_arrays :: "addr list \<Rightarrow> (nd list, 'e world) prog" where
  "read_arrays [] = ret []"
| "read_arrays (a # as) =
     bnd (read_array a) (\<lambda>v. bnd (read_arrays as) (\<lambda>vs. ret (v # vs)))"

text \<open>
  \<^verbatim>\<open>copy.deepcopy(state)\<close> for a list of arrays: every array is copied into a new
  object, an array that stands in two slots once (deepcopy's memo), and then a new list
  holds the copies.
\<close>

primrec deepcopy_items :: "addr list \<Rightarrow> (addr \<times> addr) list \<Rightarrow> (addr list, 'e world) prog" where
  "deepcopy_items [] memo = ret []"
| "deepcopy_items (a # as) memo =
     (case map_of memo a of
        Some c \<Rightarrow> bnd (deepcopy_items as memo) (\<lambda>cs. ret (c # cs))
      | None \<Rightarrow>
          bnd (read_array a) (\<lambda>v.
          bnd (new_object (Arr v)) (\<lambda>c.
          bnd (deepcopy_items as ((a, c) # memo)) (\<lambda>cs. ret (c # cs)))))"

definition deepcopy :: "addr \<Rightarrow> (addr, 'e world) prog" where
  "deepcopy l =
     bnd (read_list l) (\<lambda>xs.
     bnd (deepcopy_items xs []) (\<lambda>cs. new_object (PyList cs)))"

text \<open>
  \<^verbatim>\<open>t[idx]\<close> for a tensor \<open>t\<close> and a tensor of int64 indices: the rows of \<open>t\<close> in the
  order of \<open>idx\<close>; a negative index counts from the end, one out of range raises.
\<close>

definition index_rows :: "nd \<Rightarrow> int list \<Rightarrow> py_error + nd" where
  "index_rows t idx =
     (case t of
        Scalar v \<Rightarrow> Inl IndexError
      | Dim rows \<Rightarrow>
          (let n = int (length rows)
           in if list_all (\<lambda>j. - n \<le> j \<and> j < n) idx
              then Inr (Dim (map (\<lambda>j. rows ! nat (if j < 0 then n + j else j)) idx))
              else Inl IndexError))"

definition mpi_msg :: "string \<Rightarrow> (unit, 'e world) prog" where
  "mpi_msg m = modify (\<lambda>w. w\<lparr>msgs := msgs w @ [m]\<rparr>)"

definition on_sim :: "('e \<Rightarrow> 'e) \<Rightarrow> (unit, 'e world) prog" where
  "on_sim f = modify (\<lambda>w. w\<lparr>sim := f (sim w)\<rparr>)"

subsection \<open>The Solver class of the two training modules\<close>

text \<open>
  What a \<^verbatim>\<open>Solver\<close> of \<^verbatim>\<open>focal_learn_latent.py\<close> and \<^verbatim>\<open>learn_latent.py\<close> calls and
  does not define: the autoencoder (\<open>model\<close>: \<^verbatim>\<open>self.model(x.float())\<close>), the two
  assignment oracles, and the simulator \<^verbatim>\<open>self.env\<close>, whose methods act on the
  simulator state \<open>'e\<close> and read the arrays they are given without writing to them. The
  configured softness and decay factor are constants of a run and are part of
  \<open>set_state\<close> and \<open>compute_loss\<close> here. \<open>steps\<close> is \<^verbatim>\<open>self.steps\<close>.
\<close>

record 'e coordinator =
  model :: "nd \<Rightarrow> nd"
  compute_emd :: "nd \<Rightarrow> nd \<Rightarrow> nat \<Rightarrow> fval \<times> int list"
  solve_icp :: "nd \<Rightarrow> nd \<Rightarrow> nat \<Rightarrow> int list"
  steps :: "int option"
  set_state :: "nd list \<Rightarrow> 'e \<Rightarrow> 'e"
  set_target :: "nd \<Rightarrow> 'e \<Rightarrow> 'e"
  env_step :: "nd \<Rightarrow> 'e \<Rightarrow> 'e"
  compute_loss :: "'e \<Rightarrow> 'e"
  tape_enter :: "'e \<Rightarrow> 'e"
  set_grad :: "'e \<Rightarrow> 'e"
  tape_exit :: "'e \<Rightarrow> 'e"
  loss_value :: "'e \<Rightarrow> fval"
  get_state_grad :: "'e \<Rightarrow> nd \<times> nd"

text \<open>
  The body of the rollout loop, the same in all three \<^verbatim>\<open>forward\<close> closures:
  \<^verbatim>\<open>
    env.set_target(targets[i])
    env.step(actions[i])
    env.compute_loss(copy_grad=False,decay=self.decay_factor)
  \<close>
\<close>

definition rollout_body :: "'e coordinator \<Rightarrow> addr \<Rightarrow> addr \<Rightarrow> nat \<Rightarrow> (unit, 'e world) prog" where
  "rollout_body C targets actions i =
     bnd (seq_item targets i) (\<lambda>tg.
     bnd (on_sim (set_target C tg)) (\<lambda>u.
     bnd (seq_item actions i) (\<lambda>ac.
     bnd (on_sim (env_step C ac)) (\<lambda>u.
     on_sim (compute_loss C)))))"

text \<open>\<^verbatim>\<open>env.set_state(state, self.cfg.softness, False)\<close>.\<close>

definition env_set_state :: "'e coordinator \<Rightarrow> addr \<Rightarrow> (unit, 'e world) prog" where
  "env_set_state C state =
     bnd (read_list state) (\<lambda>xs.
     bnd (read_arrays xs) (\<lambda>vs. on_sim (set_state C vs)))"

text \<open>
  \<^verbatim>\<open>forward\<close> of \<^verbatim>\<open>solve_multistep\<close> (the same text in both modules): the rollout
  under \<^verbatim>\<open>ti.Tape\<close>, then the loss and \<^verbatim>\<open>env.get_state_grad()\<close>.
\<close>

definition forward_tape ::
  "'e coordinator \<Rightarrow> addr \<Rightarrow> addr \<Rightarrow> addr \<Rightarrow> (fval \<times> nd \<times> nd, 'e world) prog" where
  "forward_tape C state targets actions =
     bnd (env_set_state C state) (\<lambda>u.
     bnd (seq_len targets) (\<lambda>n.
     bnd (on_sim (tape_enter C)) (\<lambda>u.
     bnd (ensuring
            (bnd (for_each [0 ..< rollout_steps (steps C) n] (rollout_body C targets actions))
                 (\<lambda>u. on_sim (set_grad C)))
            (on_sim (tape_exit C))) (\<lambda>u.
     gets (\<lambda>w. (loss_value C (sim w), get_state_grad C (sim w)))))))"

text \<open>\<^verbatim>\<open>forward\<close> of \<^verbatim>\<open>exec_multistep\<close>: the same rollout without the tape.\<close>

definition forward_plain ::
  "'e coordinator \<Rightarrow> addr \<Rightarrow> addr \<Rightarrow> addr \<Rightarrow> (fval, 'e world) prog" where
  "forward_plain C state targets actions =
     bnd (env_set_state C state) (\<lambda>u.
     bnd (seq_len targets) (\<lambda>n.
     bnd (for_each [0 ..< rollout_steps (steps C) n] (rollout_body C targets actions)) (\<lambda>u.
     gets (\<lambda>w. loss_value C (sim w)))))"

text \<open>\<^verbatim>\<open>state[0]\<close> as an array: the true first frame \<open>x\<close>.\<close>

definition first_frame :: "addr \<Rightarrow> (nd, 'e world) prog" where
  "first_frame state = bnd (list_getitem state 0) read_array"

text \<open>
  \<^verbatim>\<open>
    state_hat = copy.deepcopy(state)
    state_hat[0] = x_hat.cpu().double().detach().numpy()
  \<close>
  The right-hand side is a new array.
\<close>

definition substitute_first :: "addr \<Rightarrow> nd \<Rightarrow> (addr, 'e world) prog" where
  "substitute_first state x_hat =
     bnd (deepcopy state) (\<lambda>state_hat.
     bnd (new_object (Arr x_hat)) (\<lambda>a.
     bnd (list_setitem state_hat 0 a) (\<lambda>u. ret state_hat)))"

text \<open>
  Lines 99-105 of \<^verbatim>\<open>focal_learn_latent.py\<close>, and again lines 145-151:
  \<^verbatim>\<open>
    x = torch.from_numpy(state[0]).double().to(localDevice)
    x_hat = self.model(x.float())
    loss_first,assignment = compute_emd(x, x_hat, 3000)
    x_hat_after = x_hat[assignment.detach().long()]
    x_hat = x_hat_after
    state_hat = copy.deepcopy(state)
    state_hat[0] = x_hat.cpu().double().detach().numpy()
  \<close>
  The result is \<open>(x_hat, loss_first, state_hat)\<close>.
\<close>

definition encode_emd :: "'e coordinator \<Rightarrow> addr \<Rightarrow> (nd \<times> fval \<times> addr, 'e world) prog" where
  "encode_emd C state =
     bnd (first_frame state) (\<lambda>x.
     (let x_hat = model C x;
          (loss_first, assignment) = compute_emd C x x_hat 3000
      in bnd (lift_res (index_rows x_hat assignment)) (\<lambda>x_hat_after.
         bnd (substitute_first state x_hat_after) (\<lambda>state_hat.
         ret (x_hat_after, loss_first, state_hat)))))"

text \<open>
  Lines 100-105 of \<^verbatim>\<open>learn_latent.py\<close>:
  \<^verbatim>\<open>
    x = torch.from_numpy(state[0]).double().to(localDevice)
    x_hat = self.model(x.float())
    assignment = solve_icp(x_hat, x, 3000)
    x_hat = x_hat[assignment]
    state_hat = copy.deepcopy(state)
    state_hat[0] = x_hat.cpu().double().detach().numpy()
  \<close>
\<close>

definition encode_icp :: "'e coordinator \<Rightarrow> addr \<Rightarrow> (nd \<times> addr, 'e world) prog" where
  "encode_icp C state =
     bnd (first_frame state) (\<lambda>x.
     (let x_hat = model C x;
          assignment = solve_icp C x_hat x 3000
      in bnd (lift_res (index_rows x_hat assignment)) (\<lambda>x_hat_after.
         bnd (substitute_first state x_hat_after) (\<lambda>state_hat.
         ret (x_hat_after, state_hat)))))"

text \<open>
  The end of \<^verbatim>\<open>solve_multistep\<close>, after
  \<^verbatim>\<open>x_hat_grad = torch.from_numpy(x_hat_grad).clamp(-1,1).to(localDevice)\<close>:
  \<^verbatim>\<open>
    if not torch.isnan(x_hat_grad).any():
        return x_hat, x_hat_grad, loss_first, loss
    else:
        mpi.msg("NAN Detected")
        return None, None, loss_first, loss
  \<close>
\<close>

type_synonym solve_result = "nd option \<times> nd option \<times> fval \<times> fval"

definition nan_gate :: "nd \<Rightarrow> nd \<Rightarrow> fval \<Rightarrow> fval \<Rightarrow> (solve_result, 'e world) prog" where
  "nan_gate x_hat x_hat_grad loss_first loss =
     (if \<not> any_nan x_hat_grad
      then ret (Some x_hat, Some x_hat_grad, loss_first, loss)
      else bnd (mpi_msg ''NAN Detected'') (\<lambda>u. ret (None, None, loss_first, loss)))"

text \<open>\<^verbatim>\<open>Solver.solve_multistep\<close> of \<^verbatim>\<open>focal_learn_latent.py\<close>.\<close>

definition solve_multistep ::
  "'e coordinator \<Rightarrow> addr \<Rightarrow> addr \<Rightarrow> addr \<Rightarrow> (solve_result, 'e world) prog" where
  "solve_multistep C state actions targets =
     bnd (encode_emd C state) (\<lambda>(x_hat, loss_first, state_hat).
     bnd (forward_tape C state_hat targets actions) (\<lambda>(loss, x_hat_grad, aux).
     nan_gate x_hat (clamp x_hat_grad) loss_first loss))"

text \<open>
  \<^verbatim>\<open>Solver.solve_multistep\<close> of \<^verbatim>\<open>learn_latent.py\<close>: the third component of both
  returns is the literal \<^verbatim>\<open>0\<close>.
\<close>

definition solve_multistep_icp ::
  "'e coordinator \<Rightarrow> addr \<Rightarrow> addr \<Rightarrow> addr \<Rightarrow> (solve_result, 'e world) prog" where
  "solve_multistep_icp C state actions targets =
     bnd (encode_icp C state) (\<lambda>(x_hat, state_hat).
     bnd (forward_tape C state_hat targets actions) (\<lambda>(loss, x_hat_grad, aux).
     nan_gate x_hat (clamp x_hat_grad) (Fin 0) loss))"

text \<open>\<^verbatim>\<open>Solver.exec_multistep\<close> of \<^verbatim>\<open>focal_learn_latent.py\<close>.\<close>

definition exec_multistep ::
  "'e coordinator \<Rightarrow> addr \<Rightarrow> addr \<Rightarrow> addr \<Rightarrow> (fval \<times> fval, 'e world) prog" where
  "exec_multistep C state actions targets =
     bnd (encode_emd C state) (\<lambda>(x_hat, loss_first, state_hat).
     bnd (forward_plain C state_hat targets actions) (\<lambda>loss.
     ret (loss_first, loss)))"

subsection \<open>Counting the steps of a rollout\<close>

text \<open>
  \<open>cnt\<close> reads a step counter off the simulator, as \<^verbatim>\<open>env.simulator.cur\<close> is one:
  \<^verbatim>\<open>set_state\<close> puts it to 0, \<^verbatim>\<open>step\<close> adds one, and nothing else of what a rollout
  calls moves it.
\<close>

definition step_counter :: "'e coordinator \<Rightarrow> ('e \<Rightarrow> nat) \<Rightarrow> bool" where
  "step_counter C cnt \<longleftrightarrow>
     (\<forall>vs e. cnt (set_state C vs e) = 0) \<and>
     (\<forall>a e. cnt (env_step C a e) = Suc (cnt e)) \<and>
     (\<forall>t e. cnt (set_target C t e) = cnt e) \<and>
     (\<forall>e. cnt (compute_loss C e) = cnt e) \<and>
     (\<forall>e. cnt (tape_enter C e) = cnt e) \<and>
     (\<forall>e. cnt (set_grad C e) = cnt e) \<and>
     (\<forall>e. cnt (tape_exit C e) = cnt e)"

subsection \<open>A small instance\<close>

text \<open>
  A coordinator for evaluating the definitions: the model is the identity, both oracles
  swap the two points of the cloud, every simulator step adds one to a counter that is
  also the loss, and the state gradient is the given array. In \<open>demo_world\<close> the state
  is at address 0 (a list of the two arrays at 1 and 2), the targets at 3 and the
  actions at 4.
\<close>

definition demo_coordinator :: "nd \<Rightarrow> nat coordinator" where
  "demo_coordinator g =
     \<lparr> model = (\<lambda>x. x),
       compute_emd = (\<lambda>x y n. (Fin (1 / 2), [1, 0])),
       solve_icp = (\<lambda>x y n. [1, 0]),
       steps = Some 5,
       set_state = (\<lambda>vs e. 0),
       set_target = (\<lambda>t e. e),
       env_step = (\<lambda>a e. Suc e),
       compute_loss = (\<lambda>e. e),
       tape_enter = (\<lambda>e. e),
       set_grad = (\<lambda>e. e),
       tape_exit = (\<lambda>e. e),
       loss_value = (\<lambda>e. Fin (real e)),
       get_state_grad = (\<lambda>e. (g, Scalar (Fin 0))) \<rparr>"

definition demo_world :: "nat world" where
  "demo_world =
     \<lparr> heap = [PyList [1, 2],
               Arr (Dim [Dim [Scalar (Fin 2)], Dim [Scalar (Fin 3)]]),
               Arr (Dim [Dim [Scalar (Fin 0)], Dim [Scalar (Fin 0)]]),
               Arr (Dim [Scalar (Fin 7), Scalar (Fin 8)]),
               Arr (Dim [Scalar (Fin 1), Scalar (Fin 1)])],
       sim = 0, msgs = [] \<rparr>"

section \<open>The training loops\<close>

subsection \<open>What the loops call\<close>

text \<open>
  \<^verbatim>\<open>learn_latent_focal\<close> and \<^verbatim>\<open>learn_latent\<close> run in one process of the MPI group.
  Everything outside the loop's own variables (the model and its optimizer, the
  simulator, the dataset with its loss table, the MPI layer) is one state \<open>'m\<close>. A
  batch \<open>'b\<close> is what the dataloader yields. The coordinator calls
  \<^verbatim>\<open>solver.solve_multistep\<close> and \<^verbatim>\<open>solver.exec_multistep\<close> (with the collation before
  them) are functions of the batch and that state, and return what the models above
  return; a run in which one of them raises ends there and is not followed here. The
  calls that return nothing the loop uses are listed in \<open>extcall\<close>.
\<close>

datatype 'b extcall =
    ZeroGrad
  | Backward nd nd
  | LossBackward fval
  | AvgGrads
  | OptimizerStep
  | SyncParams
  | MpiAvg fval
  | MpiAvgZero
  | UpdateLoss 'b fval
  | BatchMsg nat
  | SaveCheckpoint nat
  | TotalMsg fval
  | SaveModel

record ('b, 'm) trainer =
  solve_call :: "'b \<Rightarrow> 'm \<Rightarrow> solve_result \<times> 'm"
  exec_call :: "'b \<Rightarrow> 'm \<Rightarrow> (fval \<times> fval) \<times> 'm"
  focal_scheme :: "'m \<Rightarrow> 'b list \<times> 'm"
  perform :: "'b extcall \<Rightarrow> 'm \<Rightarrow> 'm"
  num_procs :: nat
  proc_id :: nat

text \<open>
  What a run has done, oldest first: each coordinator call with the epoch, the batch
  and what it returned, each end-of-epoch message
  \<^verbatim>\<open>mpi.msg(f"Epoch:{i}, process-local average loss:{procAvgLoss[i]}")\<close> with the
  average it prints, and each rebuild of the dataloader by
  \<^verbatim>\<open>_update_focal_scheme\<close>.
\<close>

datatype 'b event =
    SolveCall nat 'b solve_result
  | ExecCall nat 'b fval fval
  | EpochMsg nat fval
  | FocalRebuild nat

text \<open>
  The variables of the loops. \<open>use_grad\<close> is \<^verbatim>\<open>use_grad[0]\<close>; \<open>dataloader\<close> is the
  list of batches the current dataloader yields, in order.
\<close>

record ('b, 'm) train =
  use_grad :: bool
  dataloader :: "'b list"
  procAvgLoss :: "fval list"
  batchCnt :: nat
  efficientBatchCnt :: nat
  total_batch :: nat
  ext :: 'm
  trace :: "'b event list"

definition perform_ext :: "('b, 'm) trainer \<Rightarrow> 'b extcall \<Rightarrow> (unit, ('b, 'm) train) prog" where
  "perform_ext T c = modify (\<lambda>s. s\<lparr>ext := perform T c (ext s)\<rparr>)"

definition log_event :: "'b event \<Rightarrow> (unit, ('b, 'm) train) prog" where
  "log_event ev = modify (\<lambda>s. s\<lparr>trace := trace s @ [ev]\<rparr>)"

definition call_solve ::
  "('b, 'm) trainer \<Rightarrow> nat \<Rightarrow> 'b \<Rightarrow> (solve_result, ('b, 'm) train) prog" where
  "call_solve T i b s =
     (case solve_call T b (ext s) of
        (res, m) \<Rightarrow> (Inr res, s\<lparr>ext := m, trace := trace s @ [SolveCall i b res]\<rparr>))"

definition call_exec ::
  "('b, 'm) trainer \<Rightarrow> nat \<Rightarrow> 'b \<Rightarrow> (fval \<times> fval, ('b, 'm) train) prog" where
  "call_exec T i b s =
     (case exec_call T b (ext s) of
        ((lf, l), m) \<Rightarrow> (Inr (lf, l), s\<lparr>ext := m, trace := trace s @ [ExecCall i b lf l]\<rparr>))"

text \<open>\<^verbatim>\<open>procAvgLoss[i] += currentLoss\<close>.\<close>

definition add_loss :: "nat \<Rightarrow> fval \<Rightarrow> (unit, ('b, 'm) train) prog" where
  "add_loss i currentLoss =
     bnd (gets procAvgLoss) (\<lambda>xs.
     bnd (lift_res (py_nth xs i)) (\<lambda>a.
     modify (\<lambda>s. s\<lparr>procAvgLoss := (procAvgLoss s)[i := fadd a currentLoss]\<rparr>)))"

text \<open>\<^verbatim>\<open>efficientBatchCnt += 1\<close>.\<close>

definition count_efficient :: "(unit, ('b, 'm) train) prog" where
  "count_efficient = modify (\<lambda>s. s\<lparr>efficientBatchCnt := efficientBatchCnt s + 1\<rparr>)"

text \<open>
  \<^verbatim>\<open>_update_network_mpi(model, optimizer, state, gradient, loss, use_loss)\<close>:
  \<^verbatim>\<open>
    if state is not None and gradient is not None:
        optimizer.zero_grad()
        state.backward(gradient, retain_graph=True)
        if use_loss:
            loss.backward()
    mpi.avg_grads(model)
    if state is not None and gradient is not None:
        optimizer.step()
  \<close>
  In \<^verbatim>\<open>learn_latent.py\<close> the averaging is under \<^verbatim>\<open>if mpi.num_procs()>1\<close>; \<open>guarded\<close>
  says which of the two this is.
\<close>

definition update_network_mpi ::
  "('b, 'm) trainer \<Rightarrow> bool \<Rightarrow> nd option \<Rightarrow> nd option \<Rightarrow> fval \<Rightarrow> bool
     \<Rightarrow> (unit, ('b, 'm) train) prog" where
  "update_network_mpi T guarded state gradient loss use_loss =
     bnd (case (state, gradient) of
            (Some st, Some g) \<Rightarrow>
              bnd (perform_ext T ZeroGrad) (\<lambda>u.
              bnd (perform_ext T (Backward st g)) (\<lambda>u.
              if use_loss then perform_ext T (LossBackward loss) else ret ()))
          | _ \<Rightarrow> ret ()) (\<lambda>u.
     bnd (if guarded \<longrightarrow> num_procs T > 1 then perform_ext T AvgGrads else ret ()) (\<lambda>u.
     (case (state, gradient) of
        (Some st, Some g) \<Rightarrow> perform_ext T OptimizerStep
      | _ \<Rightarrow> ret ())))"

text \<open>
  Lines 297-312 of \<^verbatim>\<open>focal_learn_latent.py\<close> and 255-271 of \<^verbatim>\<open>learn_latent.py\<close>,
  what follows the call of \<^verbatim>\<open>solve_multistep\<close>:
  \<^verbatim>\<open>
    if result_state is not None and gradient is not None:
        procAvgLoss[i] += currentLoss
        batchLoss = mpi.avg(currentLoss)
        efficientBatchCnt += 1
    else:
        batchLoss = mpi.avg(0,base=0)
    _update_network_mpi(model=model, optimizer=optimizer, state=result_state,
        gradient=gradient, loss=lossInBuffer, use_loss=False)
    if mpi.num_procs() > 1: mpi.sync_params(model)
  \<close>
\<close>

definition after_solve ::
  "('b, 'm) trainer \<Rightarrow> bool \<Rightarrow> nat \<Rightarrow> solve_result \<Rightarrow> (unit, ('b, 'm) train) prog" where
  "after_solve T guarded i res =
     (case res of (result_state, gradient, lossInBuffer, currentLoss) \<Rightarrow>
        bnd (if result_state \<noteq> None \<and> gradient \<noteq> None
             then bnd (add_loss i currentLoss) (\<lambda>u.
                  bnd (perform_ext T (MpiAvg currentLoss)) (\<lambda>u. count_efficient))
             else perform_ext T MpiAvgZero) (\<lambda>u.
        bnd (update_network_mpi T guarded result_state gradient lossInBuffer False) (\<lambda>u.
        if num_procs T > 1 then perform_ext T SyncParams else ret ())))"

text \<open>
  Lines 314-322 of \<^verbatim>\<open>focal_learn_latent.py\<close>, the evaluation branch:
  \<^verbatim>\<open>
    lossInBuffer, currentLoss = solver.exec_multistep(...)
    _update_loss(indexProc,currentLoss,original_dataset)
    procAvgLoss[i] += currentLoss
    batchLoss = mpi.avg(currentLoss)
    efficientBatchCnt += 1
  \<close>
\<close>

definition eval_batch :: "('b, 'm) trainer \<Rightarrow> nat \<Rightarrow> 'b \<Rightarrow> (unit, ('b, 'm) train) prog" where
  "eval_batch T i b =
     bnd (call_exec T i b) (\<lambda>(lossInBuffer, currentLoss).
     bnd (perform_ext T (UpdateLoss b currentLoss)) (\<lambda>u.
     bnd (add_loss i currentLoss) (\<lambda>u.
     bnd (perform_ext T (MpiAvg currentLoss)) (\<lambda>u. count_efficient))))"

text \<open>
  The end of the batch loop's body in \<^verbatim>\<open>focal_learn_latent.py\<close>:
  \<^verbatim>\<open>
    if mpi.proc_id() == 0:
        mpi.msg(f"Batch:{batchCnt}, loss:{batchLoss}")
    batchCnt += 1
  \<close>
\<close>

definition batch_end_focal :: "('b, 'm) trainer \<Rightarrow> (unit, ('b, 'm) train) prog" where
  "batch_end_focal T =
     bnd (gets batchCnt) (\<lambda>n.
     bnd (if proc_id T = 0 then perform_ext T (BatchMsg n) else ret ()) (\<lambda>u.
     modify (\<lambda>s. s\<lparr>batchCnt := batchCnt s + 1\<rparr>)))"

text \<open>The body of the batch loop of \<^verbatim>\<open>learn_latent_focal\<close> (lines 282-325).\<close>

definition batch_focal :: "('b, 'm) trainer \<Rightarrow> nat \<Rightarrow> 'b \<Rightarrow> (unit, ('b, 'm) train) prog" where
  "batch_focal T i b =
     bnd (gets use_grad) (\<lambda>ug.
     bnd (if ug
          then bnd (call_solve T i b) (after_solve T False i)
          else eval_batch T i b) (\<lambda>u.
     batch_end_focal T))"

text \<open>
  The end of an epoch of \<^verbatim>\<open>learn_latent_focal\<close> (lines 326-334):
  \<^verbatim>\<open>
    procAvgLoss[i] /= efficientBatchCnt
    mpi.msg(f"Epoch:{i}, process-local average loss:{procAvgLoss[i]}")
    if i % 5==0:
        dataloader = _update_focal_scheme(original_dataset,1000)
        use_grad[0] = True
    elif i%5 == 4:
        use_grad[0] = False
  \<close>
\<close>

definition epoch_average :: "nat \<Rightarrow> (unit, ('b, 'm) train) prog" where
  "epoch_average i =
     bnd (gets procAvgLoss) (\<lambda>xs.
     bnd (lift_res (py_nth xs i)) (\<lambda>a.
     bnd (gets efficientBatchCnt) (\<lambda>n.
     bnd (lift_res (fdiv_count a n)) (\<lambda>v.
     bnd (modify (\<lambda>s. s\<lparr>procAvgLoss := (procAvgLoss s)[i := v]\<rparr>)) (\<lambda>u.
     log_event (EpochMsg i v))))))"

definition update_focal_scheme :: "('b, 'm) trainer \<Rightarrow> nat \<Rightarrow> (unit, ('b, 'm) train) prog" where
  "update_focal_scheme T i =
     modify (\<lambda>s. case focal_scheme T (ext s) of
                   (bs, m) \<Rightarrow> s\<lparr>dataloader := bs, ext := m, trace := trace s @ [FocalRebuild i]\<rparr>)"

definition switch_mode :: "('b, 'm) trainer \<Rightarrow> nat \<Rightarrow> (unit, ('b, 'm) train) prog" where
  "switch_mode T i =
     (if i mod 5 = 0
      then bnd (update_focal_scheme T i) (\<lambda>u. modify (\<lambda>s. s\<lparr>use_grad := True\<rparr>))
      else if i mod 5 = 4 then modify (\<lambda>s. s\<lparr>use_grad := False\<rparr>)
      else ret ())"

text \<open>One epoch of \<^verbatim>\<open>learn_latent_focal\<close> (lines 279-334).\<close>

definition epoch_focal :: "('b, 'm) trainer \<Rightarrow> nat \<Rightarrow> (unit, ('b, 'm) train) prog" where
  "epoch_focal T i =
     bnd (modify (\<lambda>s. s\<lparr>batchCnt := 0, efficientBatchCnt := 0\<rparr>)) (\<lambda>u.
     bnd (gets dataloader) (\<lambda>bs.
     bnd (for_each bs (batch_focal T i)) (\<lambda>u.
     bnd (epoch_average i) (\<lambda>u.
     switch_mode T i))))"

text \<open>
  After the epochs, in both modules:
  \<^verbatim>\<open>
    totalAverageLoss = sum(procAvgLoss) / len(procAvgLoss)
    mpi.msg(f"Total process-local average loss: {totalAverageLoss}")
    totalAverageLoss = mpi.avg(totalAverageLoss)
    if mpi.proc_id() == 0:
        torch.save(...)
  \<close>
\<close>

definition finish_run :: "('b, 'm) trainer \<Rightarrow> (unit, ('b, 'm) train) prog" where
  "finish_run T =
     bnd (gets procAvgLoss) (\<lambda>xs.
     bnd (lift_res (fdiv_count (foldl fadd (Fin 0) xs) (length xs))) (\<lambda>total.
     bnd (perform_ext T (TotalMsg total)) (\<lambda>u.
     bnd (perform_ext T (MpiAvg total)) (\<lambda>u.
     if proc_id T = 0 then perform_ext T SaveModel else ret ()))))"

text \<open>
  The loop of \<^verbatim>\<open>learn_latent_focal\<close> from line 276 on, for \<open>epochs\<close> epochs, started
  with the batches of the first dataloader and the outside state \<open>m\<close>.
\<close>

definition train_start :: "nat \<Rightarrow> 'b list \<Rightarrow> 'm \<Rightarrow> ('b, 'm) train" where
  "train_start epochs bs m =
     \<lparr> use_grad = False, dataloader = bs, procAvgLoss = replicate epochs (Fin 0),
       batchCnt = 0, efficientBatchCnt = 0, total_batch = 0, ext = m, trace = [] \<rparr>"

text \<open>\<^verbatim>\<open>learn_latent_focal\<close>: \<^verbatim>\<open>epochs, batch_cnt, batch_size = 20, 0, args.batch_size\<close>.\<close>

definition learn_latent_focal ::
  "('b, 'm) trainer \<Rightarrow> 'b list \<Rightarrow> 'm \<Rightarrow> (py_error + unit) \<times> ('b, 'm) train" where
  "learn_latent_focal T bs m =
     bnd (for_each [0 ..< 20] (epoch_focal T)) (\<lambda>u. finish_run T) (train_start 20 bs m)"

text \<open>
  The end of the batch loop's body in \<^verbatim>\<open>learn_latent.py\<close> (lines 273-279):
  \<^verbatim>\<open>
    if mpi.proc_id() == 0:
        mpi.msg(f"Batch:{batchCnt}, loss:{batchLoss}")
        if total_batch == 5 or total_batch==10 or total_batch==1000:
            torch.save(...)
    batchCnt += 1
    total_batch += 1
  \<close>
\<close>

definition batch_end_plain :: "('b, 'm) trainer \<Rightarrow> (unit, ('b, 'm) train) prog" where
  "batch_end_plain T =
     bnd (gets batchCnt) (\<lambda>n.
     bnd (gets total_batch) (\<lambda>t.
     bnd (if proc_id T = 0
          then bnd (perform_ext T (BatchMsg n)) (\<lambda>u.
               if t = 5 \<or> t = 10 \<or> t = 1000 then perform_ext T (SaveCheckpoint t) else ret ())
          else ret ()) (\<lambda>u.
     modify (\<lambda>s. s\<lparr>batchCnt := batchCnt s + 1, total_batch := total_batch s + 1\<rparr>))))"

text \<open>The body of the batch loop of \<^verbatim>\<open>learn_latent\<close> (lines 240-279).\<close>

definition batch_plain :: "('b, 'm) trainer \<Rightarrow> nat \<Rightarrow> 'b \<Rightarrow> (unit, ('b, 'm) train) prog" where
  "batch_plain T i b =
     bnd (bnd (call_solve T i b) (after_solve T True i)) (\<lambda>u. batch_end_plain T)"

text \<open>One epoch of \<^verbatim>\<open>learn_latent\<close> (lines 238-281).\<close>

definition epoch_plain :: "('b, 'm) trainer \<Rightarrow> nat \<Rightarrow> (unit, ('b, 'm) train) prog" where
  "epoch_plain T i =
     bnd (modify (\<lambda>s. s\<lparr>batchCnt := 0, efficientBatchCnt := 0\<rparr>)) (\<lambda>u.
     bnd (gets dataloader) (\<lambda>bs.
     bnd (for_each bs (batch_plain T i)) (\<lambda>u.
     epoch_average i)))"

text \<open>\<^verbatim>\<open>learn_latent\<close>: \<^verbatim>\<open>epochs, batchCnt, batch_size = 5, 0, args.batch_size\<close>.\<close>

definition learn_latent ::
  "('b, 'm) trainer \<Rightarrow> 'b list \<Rightarrow> 'm \<Rightarrow> (py_error + unit) \<times> ('b, 'm) train" where
  "learn_latent T bs m =
     bnd (for_each [0 ..< 5] (epoch_plain T)) (\<lambda>u. finish_run T) (train_start 5 bs m)"

subsection \<open>Reading a run\<close>

text \<open>
  The losses the loop adds to \<^verbatim>\<open>procAvgLoss[i]\<close>, read off what the calls of epoch \<open>i\<close>
  returned: the loss of a \<^verbatim>\<open>solve_multistep\<close> call whose state and gradient are both not
  None, and the loss of every \<^verbatim>\<open>exec_multistep\<close> call (which has no state/gradient pair
  to miss).
\<close>

fun counted_loss :: "nat \<Rightarrow> 'b event \<Rightarrow> fval list" where
  "counted_loss i (SolveCall j b (Some x, Some g, lf, l)) = (if j = i then [l] else [])"
| "counted_loss i (SolveCall j b (rs, g, lf, l)) = []"
| "counted_loss i (ExecCall j b lf l) = (if j = i then [l] else [])"
| "counted_loss i (EpochMsg j v) = []"
| "counted_loss i (FocalRebuild j) = []"

definition counted_losses :: "nat \<Rightarrow> 'b event list \<Rightarrow> fval list" where
  "counted_losses i tr = concat (map (counted_loss i) tr)"

text \<open>
  The claim's reading of the counted losses: the losses of the batches of epoch \<open>i\<close>
  that produced a state and a gradient that are both not None. And the losses of all
  \<^verbatim>\<open>exec_multistep\<close> calls of epoch \<open>i\<close>.
\<close>

fun usable_loss :: "nat \<Rightarrow> 'b event \<Rightarrow> fval list" where
  "usable_loss i (SolveCall j b (Some x, Some g, lf, l)) = (if j = i then [l] else [])"
| "usable_loss i (SolveCall j b (rs, g, lf, l)) = []"
| "usable_loss i (ExecCall j b lf l) = []"
| "usable_loss i (EpochMsg j v) = []"
| "usable_loss i (FocalRebuild j) = []"

definition usable_losses :: "nat \<Rightarrow> 'b event list \<Rightarrow> fval list" where
  "usable_losses i tr = concat (map (usable_loss i) tr)"

fun exec_loss :: "nat \<Rightarrow> 'b event \<Rightarrow> fval list" where
  "exec_loss i (ExecCall j b lf l) = (if j = i then [l] else [])"
| "exec_loss i (SolveCall j b r) = []"
| "exec_loss i (EpochMsg j v) = []"
| "exec_loss i (FocalRebuild j) = []"

definition exec_losses :: "nat \<Rightarrow> 'b event list \<Rightarrow> fval list" where
  "exec_losses i tr = concat (map (exec_loss i) tr)"

text \<open>The arithmetic mean \<^verbatim>\<open>sum(xs) / len(xs)\<close>, which raises on the empty list.\<close>

definition arith_mean :: "fval list \<Rightarrow> py_error + fval" where
  "arith_mean xs = fdiv_count (foldl fadd (Fin 0) xs) (length xs)"

text \<open>
  The epoch of an event, and its place in the order of a run: the coordinator calls of
  epoch \<open>i\<close>, then its message, then its rebuild.
\<close>

fun event_epoch :: "'b event \<Rightarrow> nat" where
  "event_epoch (SolveCall i b r) = i"
| "event_epoch (ExecCall i b lf l) = i"
| "event_epoch (EpochMsg i v) = i"
| "event_epoch (FocalRebuild i) = i"

fun event_place :: "'b event \<Rightarrow> nat" where
  "event_place (SolveCall i b r) = 3 * i"
| "event_place (ExecCall i b lf l) = 3 * i"
| "event_place (EpochMsg i v) = 3 * i + 1"
| "event_place (FocalRebuild i) = 3 * i + 2"

text \<open>
  The mode of an epoch as the code sets it: evaluation in the epochs \<open>0, 5, 10, 15\<close>,
  gradient in all others; the dataloader is rebuilt at the end of the evaluation epochs.
\<close>

fun event_in_mode :: "'b event \<Rightarrow> bool" where
  "event_in_mode (SolveCall i b r) = (i mod 5 \<noteq> 0)"
| "event_in_mode (ExecCall i b lf l) = (i mod 5 = 0)"
| "event_in_mode (EpochMsg i v) = True"
| "event_in_mode (FocalRebuild i) = (i mod 5 = 0)"

text \<open>A coordinator call of epoch \<open>i\<close>: \<^verbatim>\<open>solve_multistep\<close> in gradient mode, else
  \<^verbatim>\<open>exec_multistep\<close>.\<close>

fun is_call_of :: "nat \<Rightarrow> bool \<Rightarrow> 'b event \<Rightarrow> bool" where
  "is_call_of i ug (SolveCall j b r) = (ug \<and> j = i)"
| "is_call_of i ug (ExecCall j b lf l) = (\<not> ug \<and> j = i)"
| "is_call_of i ug (EpochMsg j v) = False"
| "is_call_of i ug (FocalRebuild j) = False"

text \<open>A call that returned the NaN sentinel, or no \<^verbatim>\<open>solve_multistep\<close> call at all.\<close>

fun returned_sentinel :: "'b event \<Rightarrow> bool" where
  "returned_sentinel (SolveCall j b (rs, g, lf, l)) = (rs = None \<and> g = None)"
| "returned_sentinel (ExecCall j b lf l) = True"
| "returned_sentinel (EpochMsg j v) = True"
| "returned_sentinel (FocalRebuild j) = True"

text \<open>The events of one epoch, in order.\<close>

definition events_of_epoch :: "nat \<Rightarrow> 'b event list \<Rightarrow> 'b event list" where
  "events_of_epoch i tr = filter (\<lambda>ev. event_epoch ev = i) tr"

text \<open>The batch of a coordinator call, and the batches an epoch has processed, in
  order.\<close>

fun call_batch :: "'b event \<Rightarrow> 'b list" where
  "call_batch (SolveCall i b r) = [b]"
| "call_batch (ExecCall i b lf l) = [b]"
| "call_batch (EpochMsg i v) = []"
| "call_batch (FocalRebuild i) = []"

definition epoch_batches :: "nat \<Rightarrow> 'b event list \<Rightarrow> 'b list" where
  "epoch_batches i tr = concat (map call_batch (events_of_epoch i tr))"

subsection \<open>A small trainer\<close>

text \<open>
  A trainer for evaluating the definitions. A batch is a number: \<^verbatim>\<open>solve_multistep\<close>
  returns the NaN sentinel on an even batch and a usable pair on an odd one, the loss
  of a batch is its number, and the focal subset is always the batches 1, 2, 3.
\<close>

definition demo_trainer :: "(nat, nat) trainer" where
  "demo_trainer =
     \<lparr> solve_call = (\<lambda>b m.
         (if even b then (None, None, Fin 0, Fin (real b))
          else (Some (Scalar (Fin 0)), Some (Scalar (Fin 0)), Fin 0, Fin (real b)), Suc m)),
       exec_call = (\<lambda>b m. ((Fin 0, Fin (real b)), Suc m)),
       focal_scheme = (\<lambda>m. ([1, 2, 3], m)),
       perform = (\<lambda>c m. m),
       num_procs = 2,
       proc_id = 0 \<rparr>"

text \<open>
  A trainer whose focal subset depends on the outside state \<open>m\<close>, which counts the
  coordinator calls: the subset is the one batch \<open>2 m + 1\<close>.
\<close>

definition demo_resampler :: "(nat, nat) trainer" where
  "demo_resampler = demo_trainer\<lparr>focal_scheme := (\<lambda>m. ([2 * m + 1], m))\<rparr>"

section \<open>The single-agent trajectory optimizer\<close>

subsection \<open>What the optimizer calls\<close>

text \<open>
  \<^verbatim>\<open>Solver\<close> of \<^verbatim>\<open>solver.py\<close> searches for an action sequence. An action is a vector
  of floats, an action sequence (a numpy array of shape horizon by action dimension) the
  list of its rows. The simulator \<open>'e\<close> and the step-generating optimizer \<open>'o\<close> (Adam
  or Momentum) are not defined in the module; a searcher holds what \<^verbatim>\<open>solve\<close> calls on
  them and the configuration it reads. A callback gets the loss and the gradients and
  may act on the simulator and the optimizer. The logger, which \<^verbatim>\<open>forward\<close> and
  \<^verbatim>\<open>forward_nograd\<close> only reset, is left out.
\<close>

type_synonym action = "fval list"

record ('e, 'o) searcher =
  n_iters :: nat
  init_sampler :: string
  uniform_sample :: "action list"
  optim_type :: string
  make_optim :: "string \<Rightarrow> action list \<Rightarrow> 'o"
  optim_step :: "action list \<Rightarrow> 'o \<Rightarrow> action list \<times> 'o"
  sv_set_state :: "'e \<Rightarrow> 'e \<Rightarrow> 'e"
  sv_restore :: "'e \<Rightarrow> 'e \<Rightarrow> 'e"
  sv_step :: "action \<Rightarrow> 'e \<Rightarrow> 'e"
  sv_compute_loss :: "'e \<Rightarrow> 'e"
  sv_tape_enter :: "'e \<Rightarrow> 'e"
  sv_tape_exit :: "'e \<Rightarrow> 'e"
  sv_loss :: "'e \<Rightarrow> fval"
  sv_get_grad :: "nat \<Rightarrow> 'e \<Rightarrow> action list"
  callbacks :: "(fval \<Rightarrow> action list \<Rightarrow> 'e \<times> 'o \<Rightarrow> 'e \<times> 'o) list"

text \<open>
  The variables of \<^verbatim>\<open>solve\<close> and what it writes. \<open>saved_states\<close> lists the calls of
  \<^verbatim>\<open>env.save_current_state(f'raw_data/{exp_name}/state/{self.pc_cnt}')\<close>, oldest first,
  each with the number in its path and the simulator state it saves; \<open>saved_actions\<close> is
  the array \<^verbatim>\<open>np.save\<close> writes to \<^verbatim>\<open>action.npy\<close>; \<open>evaluated\<close> lists the iterates
  \<^verbatim>\<open>forward\<close> has rolled out, each with its loss (the loss the iteration prints).
\<close>

record ('e, 'o) search =
  sim_env :: 'e
  opt :: 'o
  total_steps :: nat
  pc_cnt :: nat
  action_buffer :: "action list"
  saved_states :: "(nat \<times> 'e) list"
  best_action :: "action list option"
  best_loss :: fval
  cur_actions :: "action list"
  evaluated :: "(action list \<times> fval) list"
  saved_actions :: "action list option"

subsection \<open>solve\<close>

text \<open>
  \<^verbatim>\<open>Solver.init_actions\<close>: a uniform sample, one vector per horizon step, or
  NotImplementedError for another sampler.
\<close>

definition init_actions :: "('e, 'o) searcher \<Rightarrow> py_error + action list" where
  "init_actions S =
     (if init_sampler S = ''uniform'' then Inr (uniform_sample S) else Inl NotImplementedError)"

text \<open>
  Lines 27-30 of \<^verbatim>\<open>solve\<close>:
  \<^verbatim>\<open>
    if init_actions is None:
        init_actions = self.init_actions(env, self.cfg)
    optim = OPTIMS[self.optim_cfg.type](init_actions, self.optim_cfg)
  \<close>
  with \<^verbatim>\<open>OPTIMS = {'Adam': Adam, 'Momentum': Momentum}\<close>.
\<close>

definition solve_prepare ::
  "('e, 'o) searcher \<Rightarrow> action list option \<Rightarrow> py_error + (action list \<times> 'o)" where
  "solve_prepare S init =
     (case (case init of None \<Rightarrow> init_actions S | Some a \<Rightarrow> Inr a) of
        Inl e \<Rightarrow> Inl e
      | Inr a \<Rightarrow>
          if optim_type S = ''Adam'' \<or> optim_type S = ''Momentum''
          then Inr (a, make_optim S (optim_type S) a)
          else Inl KeyError)"

definition on_env :: "('e \<Rightarrow> 'e) \<Rightarrow> (unit, ('e, 'o) search) prog" where
  "on_env f = modify (\<lambda>s. s\<lparr>sim_env := f (sim_env s)\<rparr>)"

text \<open>\<^verbatim>\<open>self.total_steps += 1\<close>.\<close>

definition count_step :: "(unit, ('e, 'o) search) prog" where
  "count_step = modify (\<lambda>s. s\<lparr>total_steps := total_steps s + 1\<rparr>)"

text \<open>
  \<^verbatim>\<open>forward(sim_state, actions)\<close>:
  \<^verbatim>\<open>
    env.set_state(sim_state, self.cfg.softness, False)
    with ti.Tape(loss=env.loss.loss):
        for i in range(len(actions)):
            env.step(actions[i])
            self.total_steps += 1
            env.compute_loss(taichi_loss=True)
    loss = env.loss.loss[None]
    return loss, env.primitives.get_grad(len(actions))
  \<close>
  The rollout and its loss are noted in \<open>evaluated\<close>.
\<close>

definition sv_forward ::
  "('e, 'o) searcher \<Rightarrow> 'e \<Rightarrow> action list \<Rightarrow> (fval \<times> action list, ('e, 'o) search) prog" where
  "sv_forward S sim_state acts =
     bnd (on_env (sv_set_state S sim_state)) (\<lambda>u.
     bnd (on_env (sv_tape_enter S)) (\<lambda>u.
     bnd (ensuring
            (for_each [0 ..< length acts] (\<lambda>i.
               bnd (lift_res (py_nth acts i)) (\<lambda>a.
               bnd (on_env (sv_step S a)) (\<lambda>u.
               bnd count_step (\<lambda>u.
               on_env (sv_compute_loss S))))))
            (on_env (sv_tape_exit S))) (\<lambda>u.
     bnd (gets (\<lambda>s. (sv_loss S (sim_env s), sv_get_grad S (length acts) (sim_env s))))
       (\<lambda>(loss, grads).
     bnd (modify (\<lambda>s. s\<lparr>evaluated := evaluated s @ [(acts, loss)]\<rparr>)) (\<lambda>u.
     ret (loss, grads))))))"

text \<open>\<^verbatim>\<open>env.save_current_state(f'raw_data/{exp_name}/state/{self.pc_cnt}')\<close>.\<close>

definition save_current_state :: "(unit, ('e, 'o) search) prog" where
  "save_current_state =
     modify (\<lambda>s. s\<lparr>saved_states := saved_states s @ [(pc_cnt s, sim_env s)]\<rparr>)"

text \<open>\<^verbatim>\<open>action_buffer.append(a)\<close>.\<close>

definition buffer_append :: "action \<Rightarrow> (unit, ('e, 'o) search) prog" where
  "buffer_append a = modify (\<lambda>s. s\<lparr>action_buffer := action_buffer s @ [a]\<rparr>)"

text \<open>\<^verbatim>\<open>self.pc_cnt += 1\<close>.\<close>

definition count_pc :: "(unit, ('e, 'o) search) prog" where
  "count_pc = modify (\<lambda>s. s\<lparr>pc_cnt := pc_cnt s + 1\<rparr>)"

text \<open>\<^verbatim>\<open>np.zeros_like(a)\<close>.\<close>

definition zeros_like :: "action \<Rightarrow> action" where
  "zeros_like a = map (\<lambda>x. Fin 0) a"

text \<open>
  \<^verbatim>\<open>action[i]\<close> after the loop \<^verbatim>\<open>for i in range(len(action))\<close>: the last action, and
  UnboundLocalError when the loop did not run, since \<^verbatim>\<open>i\<close> was never assigned.
\<close>

definition after_loop_item :: "action list \<Rightarrow> py_error + action" where
  "after_loop_item acts = (if acts = [] then Inl UnboundLocalError else Inr (last acts))"

text \<open>
  The loop body of \<^verbatim>\<open>forward_nograd\<close>:
  \<^verbatim>\<open>
    env.save_current_state(f'raw_data/{exp_name}/state/{self.pc_cnt}')
    action_buffer.append(action[i])
    env.step(action[i])
    self.total_steps += 1
    self.pc_cnt += 1
    env.compute_loss(taichi_loss=True)
  \<close>
\<close>

definition nograd_body ::
  "('e, 'o) searcher \<Rightarrow> action list \<Rightarrow> nat \<Rightarrow> (unit, ('e, 'o) search) prog" where
  "nograd_body S acts i =
     bnd save_current_state (\<lambda>u.
     bnd (lift_res (py_nth acts i)) (\<lambda>a.
     bnd (buffer_append a) (\<lambda>u.
     bnd (lift_res (py_nth acts i)) (\<lambda>a.
     bnd (on_env (sv_step S a)) (\<lambda>u.
     bnd count_step (\<lambda>u.
     bnd count_pc (\<lambda>u.
     on_env (sv_compute_loss S))))))))"

text \<open>
  \<^verbatim>\<open>forward_nograd(sim_state, action)\<close>: the loop, and then
  \<^verbatim>\<open>
    action_buffer.append(np.zeros_like(action[i])) # For alignment
    env.save_current_state(f'raw_data/{exp_name}/state/{self.pc_cnt}')
    self.pc_cnt += 1
  \<close>
\<close>

definition forward_nograd ::
  "('e, 'o) searcher \<Rightarrow> 'e \<Rightarrow> action list \<Rightarrow> (unit, ('e, 'o) search) prog" where
  "forward_nograd S sim_state acts =
     bnd (on_env (sv_set_state S sim_state)) (\<lambda>u.
     bnd (for_each [0 ..< length acts] (nograd_body S acts)) (\<lambda>u.
     bnd (lift_res (after_loop_item acts)) (\<lambda>a.
     bnd (buffer_append (zeros_like a)) (\<lambda>u.
     bnd save_current_state (\<lambda>u.
     count_pc)))))"

text \<open>
  \<^verbatim>\<open>
    if loss < best_loss:
        best_loss = loss
        best_action = actions.copy()
  \<close>
\<close>

definition keep_best :: "action list \<Rightarrow> fval \<Rightarrow> (unit, ('e, 'o) search) prog" where
  "keep_best acts loss =
     modify (\<lambda>s. if flt loss (best_loss s)
                  then s\<lparr>best_loss := loss, best_action := Some acts\<rparr>
                  else s)"

text \<open>\<^verbatim>\<open>actions = optim.step(grads)\<close>.\<close>

definition take_step :: "('e, 'o) searcher \<Rightarrow> action list \<Rightarrow> (unit, ('e, 'o) search) prog" where
  "take_step S grads =
     modify (\<lambda>s. case optim_step S grads (opt s) of
                   (a, p) \<Rightarrow> s\<lparr>cur_actions := a, opt := p\<rparr>)"

text \<open>\<^verbatim>\<open>for callback in callbacks: callback(self, optim, loss, grads)\<close>.\<close>

definition run_callbacks ::
  "('e, 'o) searcher \<Rightarrow> fval \<Rightarrow> action list \<Rightarrow> (unit, ('e, 'o) search) prog" where
  "run_callbacks S loss grads =
     for_each (callbacks S) (\<lambda>cb.
       modify (\<lambda>s. case cb loss grads (sim_env s, opt s) of
                     (e, p) \<Rightarrow> s\<lparr>sim_env := e, opt := p\<rparr>))"

text \<open>
  One iteration of the loop of \<^verbatim>\<open>solve\<close> (lines 71-80):
  \<^verbatim>\<open>
    self.params = actions.copy()
    loss, grads = forward(env_state['state'], actions)
    if loss < best_loss:
        best_loss = loss
        best_action = actions.copy()
    actions = optim.step(grads)
    for callback in callbacks:
        callback(self, optim, loss, grads)
    forward_nograd(env_state['state'],actions)
    print("Iteration: ",iter," Loss:",loss)
  \<close>
\<close>

definition iteration :: "('e, 'o) searcher \<Rightarrow> 'e \<Rightarrow> nat \<Rightarrow> (unit, ('e, 'o) search) prog" where
  "iteration S env_state it =
     bnd (gets cur_actions) (\<lambda>acts.
     bnd (sv_forward S env_state acts) (\<lambda>(loss, grads).
     bnd (keep_best acts loss) (\<lambda>u.
     bnd (take_step S grads) (\<lambda>u.
     bnd (run_callbacks S loss grads) (\<lambda>u.
     bnd (gets cur_actions) (\<lambda>acts'.
     forward_nograd S env_state acts'))))))"

text \<open>
  \<^verbatim>\<open>solve\<close> from line 32 on, with the initial actions and the optimizer of lines 27-30:
  \<^verbatim>\<open>
    env_state = env.get_state()
    self.total_steps = 0
    self.pc_cnt = 0
    action_buffer = []
    best_action = None
    best_loss = 1e10
    actions = init_actions
    for iter in range(self.cfg.n_iters): ...
    env.set_state(**env_state)
    np.save(f'raw_data/{exp_name}/action.npy',action_buffer)
    return best_action
  \<close>
\<close>

definition search_start :: "'e \<Rightarrow> action list \<Rightarrow> 'o \<Rightarrow> ('e, 'o) search" where
  "search_start e a p =
     \<lparr> sim_env = e, opt = p, total_steps = 0, pc_cnt = 0, action_buffer = [],
       saved_states = [], best_action = None, best_loss = Fin (10 ^ 10), cur_actions = a,
       evaluated = [], saved_actions = None \<rparr>"

definition solve_run ::
  "('e, 'o) searcher \<Rightarrow> 'e \<Rightarrow> (action list option, ('e, 'o) search) prog" where
  "solve_run S e =
     bnd (for_each [0 ..< n_iters S] (iteration S e)) (\<lambda>u.
     bnd (on_env (sv_restore S e)) (\<lambda>u.
     bnd (modify (\<lambda>s. s\<lparr>saved_actions := Some (action_buffer s)\<rparr>)) (\<lambda>u.
     gets best_action)))"

text \<open>\<^verbatim>\<open>Solver.solve(exp_name, init_actions, callbacks)\<close> on the simulator \<open>e\<close>.\<close>

definition solve ::
  "('e, 'o) searcher \<Rightarrow> action list option \<Rightarrow> 'e
     \<Rightarrow> py_error + ((py_error + action list option) \<times> ('e, 'o) search)" where
  "solve S init e =
     (case solve_prepare S init of
        Inl err \<Rightarrow> Inl err
      | Inr (a, p) \<Rightarrow> Inr (solve_run S e (search_start e a p)))"

text \<open>
  A searcher for evaluating the definitions: the simulator state is the first component
  of the last action applied, and that is the loss; the optimizer steps through the
  iterates 3, 7, 4, whatever the gradients.
\<close>

definition demo_searcher :: "nat \<Rightarrow> (fval, nat) searcher" where
  "demo_searcher n =
     \<lparr> n_iters = n,
       init_sampler = ''uniform'',
       uniform_sample = [[Fin 5]],
       optim_type = ''Adam'',
       make_optim = (\<lambda>t a. 0),
       optim_step = (\<lambda>g k. ([[Fin (if k = 0 then 3 else if k = 1 then 7 else 4)]], Suc k)),
       sv_set_state = (\<lambda>snap e. snap),
       sv_restore = (\<lambda>snap e. snap),
       sv_step = (\<lambda>a e. case a of [] \<Rightarrow> e | x # xs \<Rightarrow> x),
       sv_compute_loss = (\<lambda>e. e),
       sv_tape_enter = (\<lambda>e. e),
       sv_tape_exit = (\<lambda>e. e),
       sv_loss = (\<lambda>e. e),
       sv_get_grad = (\<lambda>k e. replicate k [Fin 1]),
       callbacks = [] \<rparr>"

text \<open>What \<^verbatim>\<open>solve\<close> returns or raises, and the iterates it has rolled out.\<close>

definition solve_returns ::
  "('e, 'o) searcher \<Rightarrow> action list option \<Rightarrow> 'e \<Rightarrow> py_error + action list option" where
  "solve_returns S init e = (case solve S init e of Inl err \<Rightarrow> Inl err | Inr (r, s) \<Rightarrow> r)"

definition solve_evaluated ::
  "('e, 'o) searcher \<Rightarrow> action list option \<Rightarrow> 'e \<Rightarrow> (action list \<times> fval) list" where
  "solve_evaluated S init e = (case solve S init e of Inl err \<Rightarrow> [] | Inr (r, s) \<Rightarrow> evaluated s)"

subsection \<open>Invariants of programs\<close>

text \<open>
  \<open>keeps I m\<close>: the program \<open>m\<close> leaves a state that satisfies \<open>I\<close> when it starts in
  one, whether it returns or raises. \<open>kept h0 w\<close>: the store of \<open>w\<close> holds every object
  of the store \<open>h0\<close> at its address, unchanged.
\<close>

definition keeps :: "('s \<Rightarrow> bool) \<Rightarrow> ('a, 's) prog \<Rightarrow> bool" where
  "keeps I m \<longleftrightarrow> (\<forall>s r s'. I s \<longrightarrow> m s = (r, s') \<longrightarrow> I s')"

definition kept :: "obj list \<Rightarrow> 'e world \<Rightarrow> bool" where
  "kept h0 w \<longleftrightarrow> length h0 \<le> length (heap w) \<and> (\<forall>a < length h0. heap w ! a = h0 ! a)"

text \<open>Two states with the same loop variables, but for the batch counters.\<close>

definition same_vars :: "('b, 'm) train \<Rightarrow> ('b, 'm) train \<Rightarrow> bool" where
  "same_vars s s' \<longleftrightarrow>
     trace s' = trace s \<and> procAvgLoss s' = procAvgLoss s \<and>
     efficientBatchCnt s' = efficientBatchCnt s \<and> use_grad s' = use_grad s \<and>
     dataloader s' = dataloader s"

text \<open>A step that returns and leaves those variables alone.\<close>

definition quiet :: "(unit, ('b, 'm) train) prog \<Rightarrow> bool" where
  "quiet p \<longleftrightarrow> (\<forall>s r s'. p s = (r, s') \<longrightarrow> r = Inr () \<and> same_vars s s')"

text \<open>What one batch does to the loop's variables.\<close>

definition batch_step :: "nat \<Rightarrow> 'b event \<Rightarrow> ('b, 'm) train \<Rightarrow> ('b, 'm) train \<Rightarrow> bool" where
  "batch_step i ev s s' \<longleftrightarrow>
     trace s' = trace s @ [ev] \<and>
     procAvgLoss s' = (procAvgLoss s)[i := foldl fadd (procAvgLoss s ! i) (counted_loss i ev)] \<and>
     efficientBatchCnt s' = efficientBatchCnt s + length (counted_loss i ev) \<and>
     use_grad s' = use_grad s \<and> dataloader s' = dataloader s"

text \<open>What the batch loop of epoch \<open>i\<close> does to the loop's variables.\<close>

definition batch_run ::
  "nat \<Rightarrow> 'b event list \<Rightarrow> ('b, 'm) train \<Rightarrow> ('b, 'm) train \<Rightarrow> bool" where
  "batch_run i evs s s' \<longleftrightarrow>
     trace s' = trace s @ evs \<and>
     procAvgLoss s' = (procAvgLoss s)[i := foldl fadd (procAvgLoss s ! i) (counted_losses i evs)] \<and>
     efficientBatchCnt s' = efficientBatchCnt s + length (counted_losses i evs) \<and>
     use_grad s' = use_grad s \<and> dataloader s' = dataloader s"

text \<open>What an epoch does: it raises at the division when no loss was counted, and
  else prints the average and goes on with the events \<open>rest\<close>.\<close>

definition epoch_post ::
  "nat \<Rightarrow> 'b event list \<Rightarrow> 'b event list \<Rightarrow> ('b, 'm) train \<Rightarrow> py_error + unit
     \<Rightarrow> ('b, 'm) train \<Rightarrow> bool" where
  "epoch_post i evs rest s r s' \<longleftrightarrow>
     (counted_losses i evs = [] \<and> r = Inl ZeroDivisionError \<and> trace s' = trace s @ evs \<and>
        efficientBatchCnt s' = 0 \<and> procAvgLoss s' = procAvgLoss s \<and> use_grad s' = use_grad s)
     \<or> (\<exists>v. fdiv_count (foldl fadd (procAvgLoss s ! i) (counted_losses i evs))
                (length (counted_losses i evs)) = Inr v \<and>
           r = Inr () \<and> trace s' = trace s @ evs @ EpochMsg i v # rest \<and>
           procAvgLoss s' = (procAvgLoss s)[i := v])"

text \<open>The loop invariant of \<^verbatim>\<open>learn_latent_focal\<close> for the modes, at the start of
  epoch \<open>i\<close>.\<close>

definition mode_inv :: "nat \<Rightarrow> nat \<Rightarrow> ('b, 'm) train \<Rightarrow> bool" where
  "mode_inv n i s \<longleftrightarrow>
     use_grad s = (i mod 5 \<noteq> 0) \<and> length (procAvgLoss s) = n \<and>
     (\<forall>ev \<in> set (trace s). event_in_mode ev \<and> event_place ev < 3 * i) \<and>
     sorted (map event_place (trace s))"

definition mode_ok :: "('b, 'm) train \<Rightarrow> bool" where
  "mode_ok s \<longleftrightarrow> (\<forall>ev \<in> set (trace s). event_in_mode ev) \<and> sorted (map event_place (trace s))"

text \<open>The loop invariant of both training loops for the averages, at the start of
  epoch \<open>i\<close>.\<close>

definition avg_inv :: "nat \<Rightarrow> nat \<Rightarrow> ('b, 'm) train \<Rightarrow> bool" where
  "avg_inv n i s \<longleftrightarrow>
     length (procAvgLoss s) = n \<and>
     (\<forall>j. i \<le> j \<and> j < n \<longrightarrow> procAvgLoss s ! j = Fin 0) \<and>
     (\<forall>ev \<in> set (trace s). event_epoch ev < i) \<and>
     (\<forall>j < i. arith_mean (counted_losses j (trace s)) = Inr (procAvgLoss s ! j)) \<and>
     (\<forall>j v. EpochMsg j v \<in> set (trace s) \<longrightarrow> v = procAvgLoss s ! j)"

definition avg_ok :: "('b, 'm) train \<Rightarrow> bool" where
  "avg_ok s \<longleftrightarrow>
     (\<forall>j v. EpochMsg j v \<in> set (trace s) \<longrightarrow> arith_mean (counted_losses j (trace s)) = Inr v)"

definition rebuilt_inv :: "nat \<Rightarrow> nat \<Rightarrow> ('b, 'm) train \<Rightarrow> bool" where
  "rebuilt_inv n i s \<longleftrightarrow>
     mode_inv n i s \<and> (\<forall>j < i. j mod 5 = 0 \<longrightarrow> FocalRebuild j \<in> set (trace s))"

text \<open>
  The loop invariant of \<^verbatim>\<open>learn_latent_focal\<close> for the dataloader, at the start of
  epoch \<open>i\<close>: epoch 0 has processed the batches of the first dataloader, an epoch after
  a rebuild those of a focal subset, every other epoch those of the epoch before it, and
  the dataloader is the one the next epoch will read.
\<close>

definition loader_inv ::
  "('b, 'm) trainer \<Rightarrow> 'b list \<Rightarrow> nat \<Rightarrow> nat \<Rightarrow> ('b, 'm) train \<Rightarrow> bool" where
  "loader_inv T bs n i s \<longleftrightarrow>
     length (procAvgLoss s) = n \<and>
     (\<forall>ev \<in> set (trace s). event_epoch ev < i) \<and>
     (0 < i \<longrightarrow> epoch_batches 0 (trace s) = bs) \<and>
     (\<forall>j < i. j mod 5 = 1 \<longrightarrow> (\<exists>m0. epoch_batches j (trace s) = fst (focal_scheme T m0))) \<and>
     (\<forall>j. Suc j < i \<longrightarrow> j mod 5 \<noteq> 0 \<longrightarrow>
          epoch_batches (Suc j) (trace s) = epoch_batches j (trace s)) \<and>
     (i = 0 \<longrightarrow> dataloader s = bs) \<and>
     (\<forall>j. i = Suc j \<longrightarrow>
          (if j mod 5 = 0 then \<exists>m0. dataloader s = fst (focal_scheme T m0)
           else dataloader s = epoch_batches j (trace s)))"

text \<open>What the archive holds of a state: the buffer, the numbers of the saved
  snapshots, and the counter.\<close>

definition archive :: "('e, 'o) search \<Rightarrow> action list \<times> nat list \<times> nat" where
  "archive s = (action_buffer s, map fst (saved_states s), pc_cnt s)"

text \<open>A step that returns and leaves the archive and the best-so-far record alone.\<close>

definition off_record :: "('a, ('e, 'o) search) prog \<Rightarrow> bool" where
  "off_record p \<longleftrightarrow>
     (\<forall>s r s'. p s = (r, s') \<longrightarrow>
        archive s' = archive s \<and> best_action s' = best_action s \<and> best_loss s' = best_loss s \<and>
        evaluated s' = evaluated s \<and> cur_actions s' = cur_actions s)"

text \<open>Two states with the same best-so-far record and the same iterate.\<close>

definition same_record :: "('e, 'o) search \<Rightarrow> ('e, 'o) search \<Rightarrow> bool" where
  "same_record s s' \<longleftrightarrow>
     best_action s' = best_action s \<and> best_loss s' = best_loss s \<and>
     evaluated s' = evaluated s \<and> cur_actions s' = cur_actions s"

text \<open>The archive after the actions \<open>new\<close> and \<open>k\<close> snapshots more.\<close>

definition archived :: "action list \<Rightarrow> nat \<Rightarrow> ('e, 'o) search \<Rightarrow> ('e, 'o) search \<Rightarrow> bool" where
  "archived new k s s' \<longleftrightarrow>
     action_buffer s' = action_buffer s @ new \<and>
     map fst (saved_states s') = map fst (saved_states s) @ [pc_cnt s ..< pc_cnt s + k] \<and>
     pc_cnt s' = pc_cnt s + k"

text \<open>What one iteration of \<^verbatim>\<open>solve\<close> does to the record and to the archive.\<close>

definition iterated :: "('e, 'o) search \<Rightarrow> ('e, 'o) search \<Rightarrow> bool" where
  "iterated s s' \<longleftrightarrow>
     (\<exists>loss. evaluated s' = evaluated s @ [(cur_actions s, loss)] \<and>
        best_loss s' = (if flt loss (best_loss s) then loss else best_loss s) \<and>
        best_action s' = (if flt loss (best_loss s) then Some (cur_actions s) else best_action s)) \<and>
     cur_actions s' \<noteq> [] \<and>
     archived (cur_actions s' @ [zeros_like (last (cur_actions s'))])
       (length (cur_actions s') + 1) s s'"

text \<open>The archive is aligned: as many snapshots as buffered actions, saved under the
  numbers from 0 on.\<close>

definition aligned :: "('e, 'o) search \<Rightarrow> bool" where
  "aligned s \<longleftrightarrow>
     length (action_buffer s) = pc_cnt s \<and> map fst (saved_states s) = [0 ..< pc_cnt s]"

text \<open>The best-so-far record against the iterates rolled out so far.\<close>

definition best_of :: "action list option \<Rightarrow> fval \<Rightarrow> (action list \<times> fval) list \<Rightarrow> bool" where
  "best_of ba bl ev \<longleftrightarrow>
     (ba = None \<and> bl = Fin (10 ^ 10) \<and> (\<forall>x \<in> set ev. \<not> flt (snd x) (Fin (10 ^ 10))))
     \<or> (\<exists>pre a post. ba = Some a \<and> ev = pre @ (a, bl) # post \<and> flt bl (Fin (10 ^ 10)) \<and>
           (\<forall>x \<in> set pre. isnan (snd x) \<or> flt bl (snd x)) \<and>
           (\<forall>x \<in> set post. \<not> flt (snd x) bl))"

text \<open>The loop invariant of \<^verbatim>\<open>solve\<close>.\<close>

definition solve_inv :: "('e, 'o) search \<Rightarrow> bool" where
  "solve_inv s \<longleftrightarrow> aligned s \<and> best_of (best_action s) (best_loss s) (evaluated s)"

section \<open>Properties of the rollout coordinator\<close>

subsection \<open>Sequencing and invariants\<close>

lemma keepsD: "keeps I m \<Longrightarrow> I s \<Longrightarrow> m s = (r, s') \<Longrightarrow> I s'"
  unfolding keeps_def by blast

lemma bnd_cases:
  assumes "bnd m f s = (r, t)"
  obtains (raised) e where "m s = (Inl e, t)" "r = Inl e"
        | (returned) x s' where "m s = (Inr x, s')" "f x s' = (r, t)"
  using assms by (auto simp: bnd_def split: prod.splits sum.splits)

lemma keeps_ret: "keeps I (ret x)"
  by (simp add: keeps_def ret_def)

lemma keeps_raise: "keeps I (raise e)"
  by (simp add: keeps_def raise_def)

lemma keeps_lift_res: "keeps I (lift_res r)"
  by (simp add: keeps_def lift_res_def)

lemma keeps_gets: "keeps I (gets f)"
  by (simp add: keeps_def gets_def)

lemma keeps_modify: "(\<And>s. I s \<Longrightarrow> I (f s)) \<Longrightarrow> keeps I (modify f)"
  by (auto simp: keeps_def modify_def)

lemma keeps_bnd_res:
  assumes m: "\<And>s r s'. I s \<Longrightarrow> m s = (r, s') \<Longrightarrow> I s' \<and> (\<forall>x. r = Inr x \<longrightarrow> Q x)"
    and f: "\<And>x. Q x \<Longrightarrow> keeps I (f x)"
  shows "keeps I (bnd m f)"
  unfolding keeps_def
proof (intro allI impI)
  fix s r t
  assume I: "I s" and run: "bnd m f s = (r, t)"
  from run show "I t"
  proof (cases rule: bnd_cases)
    case (raised e)
    with m [OF I] show ?thesis by blast
  next
    case (returned x s')
    from m [OF I returned(1)] have "I s'" "Q x" by auto
    with f returned(2) show ?thesis by (blast dest: keepsD)
  qed
qed

lemma keeps_bnd:
  assumes m: "keeps I m" and f: "\<And>x. keeps I (f x)"
  shows "keeps I (bnd m f)"
proof (rule keeps_bnd_res [where Q = "\<lambda>x. True"])
  fix s r s'
  assume "I s" "m s = (r, s')"
  with m have "I s'" by (rule keepsD)
  then show "I s' \<and> (\<forall>x. r = Inr x \<longrightarrow> True)" by simp
next
  fix x
  show "keeps I (f x)" by (rule f)
qed

lemma keeps_for_each:
  assumes body: "\<And>x. keeps I (body x)"
  shows "keeps I (for_each xs body)"
proof (induction xs)
  case Nil
  show ?case by (simp add: keeps_ret)
next
  case (Cons x xs)
  show ?case unfolding for_each.simps
    by (rule keeps_bnd) (rule body, rule Cons.IH)
qed

lemma keeps_ensuring:
  assumes m: "keeps I m" and fin: "keeps I fin"
  shows "keeps I (ensuring m fin)"
  unfolding keeps_def
proof (intro allI impI)
  fix s r t
  assume I: "I s" and run: "ensuring m fin s = (r, t)"
  obtain r1 s1 where m1: "m s = (r1, s1)" by (cases "m s")
  obtain r2 s2 where f2: "fin s1 = (r2, s2)" by (cases "fin s1")
  from m I m1 have "I s1" by (rule keepsD)
  with fin have "I s2" using f2 by (rule keepsD)
  moreover from run m1 f2 have "t = s2"
    by (simp add: ensuring_def split: sum.splits)
  ultimately show "I t" by simp
qed

subsection \<open>The store under the coordinator's operations\<close>

lemma keeps_read_list: "keeps I (read_list a)"
  by (simp add: keeps_def read_list_def)

lemma keeps_read_array: "keeps I (read_array a)"
  by (simp add: keeps_def read_array_def)

lemma keeps_seq_len: "keeps I (seq_len a)"
  by (simp add: keeps_def seq_len_def)

lemma seq_item_same: "seq_item a i w = (r, w') \<Longrightarrow> w' = w"
  by (auto simp: seq_item_def read_array_def split: if_splits obj.splits nd.splits sum.splits)

lemma keeps_seq_item: "keeps I (seq_item a i)"
  unfolding keeps_def by (blast dest: seq_item_same)

lemma keeps_read_arrays: "keeps I (read_arrays as)"
  by (induction as) (simp_all add: keeps_ret keeps_bnd keeps_read_array)

lemma keeps_list_getitem: "keeps I (list_getitem l i)"
  unfolding list_getitem_def by (intro keeps_bnd keeps_read_list keeps_lift_res)

lemma keeps_first_frame: "keeps I (first_frame state)"
  unfolding first_frame_def by (intro keeps_bnd keeps_list_getitem keeps_read_array)

lemma keeps_on_sim: "keeps (kept h0) (on_sim f)"
  unfolding on_sim_def by (rule keeps_modify) (simp add: kept_def)

lemma keeps_mpi_msg: "keeps (kept h0) (mpi_msg m)"
  unfolding mpi_msg_def by (rule keeps_modify) (simp add: kept_def)

lemma new_object_fresh:
  "kept h0 w \<Longrightarrow> new_object ob w = (r, w') \<Longrightarrow> kept h0 w' \<and> (\<forall>a. r = Inr a \<longrightarrow> length h0 \<le> a)"
  by (auto simp: new_object_def kept_def nth_append)

lemma keeps_new_object: "keeps (kept h0) (new_object ob)"
  unfolding keeps_def by (blast dest: new_object_fresh)

lemma keeps_list_setitem:
  assumes "length h0 \<le> l"
  shows "keeps (kept h0) (list_setitem l i a)"
  unfolding list_setitem_def
proof (rule keeps_bnd [OF keeps_read_list])
  fix xs
  show "keeps (kept h0) (if i < length xs
          then modify (\<lambda>w. w\<lparr>heap := (heap w)[l := PyList (xs[i := a])]\<rparr>)
          else raise IndexError)"
    using assms by (auto intro!: keeps_modify keeps_raise simp: kept_def)
qed

lemma keeps_deepcopy_items: "keeps (kept h0) (deepcopy_items as memo)"
proof (induction as arbitrary: memo)
  case Nil
  show ?case by (simp add: keeps_ret)
next
  case (Cons a as)
  show ?case
    by (cases "map_of memo a")
       (simp_all add: keeps_bnd keeps_ret keeps_read_array keeps_new_object Cons.IH)
qed

lemma deepcopy_fresh:
  assumes "kept h0 w" and "deepcopy l w = (r, w')"
  shows "kept h0 w' \<and> (\<forall>a. r = Inr a \<longrightarrow> length h0 \<le> a)"
proof -
  from assms(2) [unfolded deepcopy_def] show ?thesis
  proof (cases rule: bnd_cases)
    case (raised e)
    with assms(1) keeps_read_list [of "kept h0" l] show ?thesis
      by (auto dest: keepsD)
  next
    case (returned xs s1)
    with assms(1) keeps_read_list [of "kept h0" l] have k1: "kept h0 s1"
      by (blast dest: keepsD)
    from returned(2) show ?thesis
    proof (cases rule: bnd_cases)
      case (raised e)
      with k1 keeps_deepcopy_items [of h0 xs "[]"] show ?thesis
        by (auto dest: keepsD)
    next
      case (returned cs s2)
      with k1 keeps_deepcopy_items [of h0 xs "[]"] have "kept h0 s2"
        by (blast dest: keepsD)
      then show ?thesis using returned(2) by (rule new_object_fresh)
    qed
  qed
qed

lemma keeps_substitute_first: "keeps (kept h0) (substitute_first state x_hat)"
  unfolding substitute_first_def
proof (rule keeps_bnd_res [where Q = "\<lambda>a. length h0 \<le> a"])
  fix s r s'
  assume "kept h0 s" "deepcopy state s = (r, s')"
  then show "kept h0 s' \<and> (\<forall>x. r = Inr x \<longrightarrow> length h0 \<le> x)"
    by (rule deepcopy_fresh)
next
  fix state_hat
  assume "length h0 \<le> state_hat"
  then show "keeps (kept h0)
     (bnd (new_object (Arr x_hat)) (\<lambda>a. bnd (list_setitem state_hat 0 a) (\<lambda>u. ret state_hat)))"
    by (intro keeps_bnd keeps_new_object keeps_list_setitem keeps_ret)
qed

lemma keeps_encode_emd: "keeps (kept h0) (encode_emd C state)"
  unfolding encode_emd_def Let_def case_prod_beta
  by (intro keeps_bnd keeps_first_frame keeps_lift_res keeps_substitute_first keeps_ret)

lemma keeps_rollout_body: "keeps (kept h0) (rollout_body C targets actions i)"
  unfolding rollout_body_def
  by (intro keeps_bnd keeps_seq_item keeps_on_sim)

lemma keeps_env_set_state: "keeps (kept h0) (env_set_state C state)"
  unfolding env_set_state_def
  by (intro keeps_bnd keeps_read_list keeps_read_arrays keeps_on_sim)

lemma keeps_forward_plain: "keeps (kept h0) (forward_plain C state targets actions)"
  unfolding forward_plain_def
  by (intro keeps_bnd keeps_env_set_state keeps_seq_len keeps_for_each keeps_rollout_body
        keeps_gets)

lemma keeps_exec_multistep: "keeps (kept h0) (exec_multistep C state actions targets)"
  unfolding exec_multistep_def case_prod_beta
  by (intro keeps_bnd keeps_encode_emd keeps_forward_plain keeps_ret)

subsection \<open>The NaN gate\<close>

lemma bnd_Inr: "m s = (Inr x, s') \<Longrightarrow> bnd m f s = f x s'"
  by (simp add: bnd_def)

lemma nan_gate_eq:
  "nan_gate x_hat g lf loss w =
     (if any_nan g
      then (Inr (None, None, lf, loss), w\<lparr>msgs := msgs w @ [''NAN Detected'']\<rparr>)
      else (Inr (Some x_hat, Some g, lf, loss), w))"
  by (simp add: nan_gate_def ret_def bnd_def mpi_msg_def modify_def)

text \<open>
  C2. Once the first frame is encoded and substituted and the taped rollout has returned
  the loss and the state gradient \<open>g\<close>: if any element of the clamped gradient is NaN,
  \<^verbatim>\<open>solve_multistep\<close> returns \<open>(None, None, loss_first, loss)\<close> and prints the
  diagnostic, without raising; otherwise it returns the reordered decoded cloud and the
  clamped gradient, both not None, with \<open>loss_first\<close> and \<open>loss\<close>. The same holds in
  \<^verbatim>\<open>learn_latent.py\<close>, where the third component is the literal 0.
\<close>

theorem solve_multistep_nan_gating:
  "(encode_emd C state w = (Inr (x_hat, loss_first, state_hat), w1) \<longrightarrow>
    forward_tape C state_hat targets actions w1 = (Inr (loss, g, aux), w2) \<longrightarrow>
    solve_multistep C state actions targets w =
      (if any_nan (clamp g)
       then (Inr (None, None, loss_first, loss), w2\<lparr>msgs := msgs w2 @ [''NAN Detected'']\<rparr>)
       else (Inr (Some x_hat, Some (clamp g), loss_first, loss), w2)))
   \<and> (encode_icp C state w = (Inr (x_hat', state_hat'), w1') \<longrightarrow>
    forward_tape C state_hat' targets actions w1' = (Inr (loss', g', aux'), w2') \<longrightarrow>
    solve_multistep_icp C state actions targets w =
      (if any_nan (clamp g')
       then (Inr (None, None, Fin 0, loss'), w2'\<lparr>msgs := msgs w2' @ [''NAN Detected'']\<rparr>)
       else (Inr (Some x_hat', Some (clamp g'), Fin 0, loss'), w2')))"
  by (simp add: solve_multistep_def solve_multistep_icp_def bnd_Inr nan_gate_eq)

theorem solve_multistep_nan_gating_witness:
  "fst (solve_multistep (demo_coordinator (Dim [Scalar NaN, Scalar (Fin 5)])) 0 4 3 demo_world)
     = Inr (None, None, Fin (1 / 2), Fin 2)
   \<and> msgs (snd (solve_multistep (demo_coordinator (Dim [Scalar NaN, Scalar (Fin 5)])) 0 4 3
        demo_world)) = [''NAN Detected'']
   \<and> fst (solve_multistep_icp (demo_coordinator (Dim [Scalar NInf, Scalar (Fin 5)])) 0 4 3
        demo_world)
     = Inr (Some (Dim [Dim [Scalar (Fin 3)], Dim [Scalar (Fin 2)]]),
            Some (Dim [Scalar (Fin (- 1)), Scalar (Fin 1)]), Fin 0, Fin 2)"
proof -
  let ?C = "demo_coordinator (Dim [Scalar NaN, Scalar (Fin 5)])"
  let ?D = "demo_coordinator (Dim [Scalar NInf, Scalar (Fin 5)])"
  let ?x = "Dim [Dim [Scalar (Fin 3)], Dim [Scalar (Fin 2)]]"
  define w1 where "w1 = snd (encode_emd ?C 0 demo_world)"
  define w2 where "w2 = snd (forward_tape ?C 7 3 4 w1)"
  define v1 where "v1 = snd (encode_icp ?D 0 demo_world)"
  define v2 where "v2 = snd (forward_tape ?D 7 3 4 v1)"
  have "fst (encode_emd ?C 0 demo_world) = Inr (?x, Fin (1 / 2), 7)"
    by code_simp
  then have e: "encode_emd ?C 0 demo_world = (Inr (?x, Fin (1 / 2), 7), w1)"
    unfolding w1_def by (simp add: prod_eq_iff)
  have "fst (forward_tape ?C 7 3 4 w1) = Inr (Fin 2, Dim [Scalar NaN, Scalar (Fin 5)], Scalar (Fin 0))"
    unfolding w1_def by code_simp
  then have f: "forward_tape ?C 7 3 4 w1
      = (Inr (Fin 2, Dim [Scalar NaN, Scalar (Fin 5)], Scalar (Fin 0)), w2)"
    unfolding w2_def by (simp add: prod_eq_iff)
  have m: "msgs w2 = []"
    unfolding w2_def w1_def by code_simp
  have "fst (encode_icp ?D 0 demo_world) = Inr (?x, 7)"
    by code_simp
  then have e': "encode_icp ?D 0 demo_world = (Inr (?x, 7), v1)"
    unfolding v1_def by (simp add: prod_eq_iff)
  have "fst (forward_tape ?D 7 3 4 v1) = Inr (Fin 2, Dim [Scalar NInf, Scalar (Fin 5)], Scalar (Fin 0))"
    unfolding v1_def by code_simp
  then have f': "forward_tape ?D 7 3 4 v1
      = (Inr (Fin 2, Dim [Scalar NInf, Scalar (Fin 5)], Scalar (Fin 0)), v2)"
    unfolding v2_def by (simp add: prod_eq_iff)
  from solve_multistep_nan_gating
    [of ?C 0 demo_world ?x "Fin (1 / 2)" 7 w1 3 4 "Fin 2" "Dim [Scalar NaN, Scalar (Fin 5)]"
        "Scalar (Fin 0)" w2 ?x 7 w1 "Fin 2" "Dim [Scalar NaN, Scalar (Fin 5)]" "Scalar (Fin 0)" w2]
    e f m
  have 1: "fst (solve_multistep ?C 0 4 3 demo_world) = Inr (None, None, Fin (1 / 2), Fin 2)"
    and 2: "msgs (snd (solve_multistep ?C 0 4 3 demo_world)) = [''NAN Detected'']"
    by (simp_all add: any_nan_def)
  from solve_multistep_nan_gating
    [of ?D 0 demo_world ?x "Fin 0" 7 v1 3 4 "Fin 2" "Dim [Scalar NInf, Scalar (Fin 5)]"
        "Scalar (Fin 0)" v2 ?x 7 v1 "Fin 2" "Dim [Scalar NInf, Scalar (Fin 5)]" "Scalar (Fin 0)" v2]
    e' f'
  have 3: "fst (solve_multistep_icp ?D 0 4 3 demo_world)
     = Inr (Some ?x, Some (Dim [Scalar (Fin (- 1)), Scalar (Fin 1)]), Fin 0, Fin 2)"
    by (simp add: any_nan_def)
  from 1 2 3 show ?thesis by simp
qed

subsection \<open>Gradient clamping\<close>

lemma clamp1_range: "clamp1 v = NaN \<or> (\<exists>r. clamp1 v = Fin r \<and> - 1 \<le> r \<and> r \<le> 1)"
  by (cases v) auto

lemma clamp_elems: "elems (clamp g) = map clamp1 (elems g)"
  by (induction g) (simp_all add: map_concat comp_def cong: map_cong)

lemma clamped_elems_range:
  assumes "\<not> any_nan (clamp g)" and "v \<in> set (elems (clamp g))"
  shows "\<exists>r. v = Fin r \<and> - 1 \<le> r \<and> r \<le> 1"
proof -
  from assms(2) obtain u where v: "v = clamp1 u" by (auto simp: clamp_elems)
  from assms have "\<not> isnan v" by (auto simp: any_nan_def list_ex_iff)
  with v clamp1_range [of u] show ?thesis by auto
qed

lemma solve_multistep_Some:
  assumes "solve_multistep C state actions targets w = (Inr (rs, Some g, lf, loss), w')"
  shows "\<exists>g0. g = clamp g0 \<and> \<not> any_nan g"
  using assms unfolding solve_multistep_def
  by (auto elim!: bnd_cases simp: nan_gate_eq split: if_splits)

lemma solve_multistep_icp_Some:
  assumes "solve_multistep_icp C state actions targets w = (Inr (rs, Some g, lf, loss), w')"
  shows "\<exists>g0. g = clamp g0 \<and> \<not> any_nan g"
  using assms unfolding solve_multistep_icp_def
  by (auto elim!: bnd_cases simp: nan_gate_eq split: if_splits)

text \<open>
  C8. Whenever \<^verbatim>\<open>solve_multistep\<close> (of either module) returns a gradient that is not
  None, every element of that gradient is a finite number in the closed interval from
  \<open>-1\<close> to \<open>1\<close>.
\<close>

theorem solve_multistep_gradient_clamped:
  "(solve_multistep C state actions targets w = (Inr (rs, Some g, lf, loss), w') \<longrightarrow>
      (\<forall>v \<in> set (elems g). \<exists>r. v = Fin r \<and> - 1 \<le> r \<and> r \<le> 1))
   \<and> (solve_multistep_icp C state actions targets w = (Inr (rs, Some g, lf, loss), w') \<longrightarrow>
      (\<forall>v \<in> set (elems g). \<exists>r. v = Fin r \<and> - 1 \<le> r \<and> r \<le> 1))"
  by (blast dest: solve_multistep_Some solve_multistep_icp_Some clamped_elems_range)

theorem solve_multistep_gradient_clamped_witness:
  "fst (solve_multistep (demo_coordinator (Dim [Scalar NInf, Scalar (Fin 5)])) 0 4 3 demo_world)
     = Inr (Some (Dim [Dim [Scalar (Fin 3)], Dim [Scalar (Fin 2)]]),
            Some (Dim [Scalar (Fin (- 1)), Scalar (Fin 1)]), Fin (1 / 2), Fin 2)
   \<and> (\<exists>r. Fin (- 1) = Fin r \<and> - 1 \<le> r \<and> r \<le> 1)
   \<and> (\<exists>r. Fin 1 = Fin r \<and> - 1 \<le> r \<and> r \<le> (1::real))"
proof -
  let ?D = "demo_coordinator (Dim [Scalar NInf, Scalar (Fin 5)])"
  let ?x = "Dim [Dim [Scalar (Fin 3)], Dim [Scalar (Fin 2)]]"
  let ?g = "Dim [Scalar (Fin (- 1)), Scalar (Fin 1)]"
  define w' where "w' = snd (solve_multistep ?D 0 4 3 demo_world)"
  have r: "fst (solve_multistep ?D 0 4 3 demo_world) = Inr (Some ?x, Some ?g, Fin (1 / 2), Fin 2)"
    by code_simp
  then have "solve_multistep ?D 0 4 3 demo_world = (Inr (Some ?x, Some ?g, Fin (1 / 2), Fin 2), w')"
    unfolding w'_def by (simp add: prod_eq_iff)
  with solve_multistep_gradient_clamped [of ?D 0 4 3 demo_world "Some ?x" ?g "Fin (1 / 2)" "Fin 2" w']
  have "\<forall>v \<in> set (elems ?g). \<exists>r. v = Fin r \<and> - 1 \<le> r \<and> r \<le> 1"
    by blast
  with r show ?thesis by simp
qed

subsection \<open>The third return value\<close>

lemma first_frame_same: "first_frame state w = (r, w') \<Longrightarrow> w' = w"
  by (auto simp: first_frame_def list_getitem_def read_list_def read_array_def lift_res_def
           elim!: bnd_cases)

lemma encode_emd_loss_first:
  assumes "encode_emd C state w = (Inr (x_hat, lf, state_hat), w1)"
  shows "\<exists>x. first_frame state w = (Inr x, w) \<and> lf = fst (compute_emd C x (model C x) 3000)"
  using assms unfolding encode_emd_def Let_def case_prod_beta
  by (auto elim!: bnd_cases simp: ret_def dest: first_frame_same)

text \<open>
  C9. The third return value of \<^verbatim>\<open>solve_multistep\<close> is, in
  \<^verbatim>\<open>focal_learn_latent.py\<close>, the distance the assignment oracle \<^verbatim>\<open>compute_emd\<close>
  gives for the true first frame \<open>x\<close> and the decoded cloud \<open>model x\<close>; in
  \<^verbatim>\<open>learn_latent.py\<close> it is the constant 0 for every input.
\<close>

theorem loss_first_variants:
  "(solve_multistep C state actions targets w = (Inr (rs, g, lf, loss), w') \<longrightarrow>
      (\<exists>x. first_frame state w = (Inr x, w) \<and> lf = fst (compute_emd C x (model C x) 3000)))
   \<and> (solve_multistep_icp C state actions targets w = (Inr (rs, g, lf, loss), w') \<longrightarrow> lf = Fin 0)"
proof (intro conjI impI)
  assume "solve_multistep C state actions targets w = (Inr (rs, g, lf, loss), w')"
  then obtain x_hat sh w1 where "encode_emd C state w = (Inr (x_hat, lf, sh), w1)"
    unfolding solve_multistep_def
    by (auto elim!: bnd_cases simp: nan_gate_eq split: if_splits)
  then show "\<exists>x. first_frame state w = (Inr x, w) \<and> lf = fst (compute_emd C x (model C x) 3000)"
    by (rule encode_emd_loss_first)
next
  assume "solve_multistep_icp C state actions targets w = (Inr (rs, g, lf, loss), w')"
  then show "lf = Fin 0"
    unfolding solve_multistep_icp_def
    by (auto elim!: bnd_cases simp: nan_gate_eq split: if_splits)
qed

theorem loss_first_variants_witness:
  "fst (solve_multistep (demo_coordinator (Dim [Scalar NInf, Scalar (Fin 5)])) 0 4 3 demo_world)
     = Inr (Some (Dim [Dim [Scalar (Fin 3)], Dim [Scalar (Fin 2)]]),
            Some (Dim [Scalar (Fin (- 1)), Scalar (Fin 1)]), Fin (1 / 2), Fin 2)
   \<and> (\<exists>x. first_frame 0 demo_world = (Inr x, demo_world)
          \<and> Fin (1 / 2) = fst (compute_emd (demo_coordinator (Dim [Scalar NInf, Scalar (Fin 5)])) x
               (model (demo_coordinator (Dim [Scalar NInf, Scalar (Fin 5)])) x) 3000))"
proof -
  let ?D = "demo_coordinator (Dim [Scalar NInf, Scalar (Fin 5)])"
  let ?x = "Dim [Dim [Scalar (Fin 3)], Dim [Scalar (Fin 2)]]"
  let ?g = "Dim [Scalar (Fin (- 1)), Scalar (Fin 1)]"
  define w' where "w' = snd (solve_multistep ?D 0 4 3 demo_world)"
  have r: "fst (solve_multistep ?D 0 4 3 demo_world) = Inr (Some ?x, Some ?g, Fin (1 / 2), Fin 2)"
    by code_simp
  then have "solve_multistep ?D 0 4 3 demo_world = (Inr (Some ?x, Some ?g, Fin (1 / 2), Fin 2), w')"
    unfolding w'_def by (simp add: prod_eq_iff)
  with loss_first_variants [of ?D 0 4 3 demo_world "Some ?x" "Some ?g" "Fin (1 / 2)" "Fin 2" w']
  have "\<exists>x. first_frame 0 demo_world = (Inr x, demo_world)
          \<and> Fin (1 / 2) = fst (compute_emd ?D x (model ?D x) 3000)"
    by blast
  with r show ?thesis by simp
qed

subsection \<open>The caller's objects\<close>

text \<open>
  C6. For every input, and whether it returns or raises, \<^verbatim>\<open>exec_multistep\<close> leaves
  every object that existed before the call as it was: the state list, the arrays it
  names, the actions and the targets are element for element what they were. What the
  call writes (the deep copy and the substituted first frame) are new objects.
\<close>

theorem exec_multistep_frame:
  "exec_multistep C state actions targets w = (r, w') \<Longrightarrow>
     length (heap w) \<le> length (heap w') \<and> (\<forall>a < length (heap w). heap w' ! a = heap w ! a)"
proof -
  assume run: "exec_multistep C state actions targets w = (r, w')"
  have "kept (heap w) w" by (simp add: kept_def)
  with keeps_exec_multistep have "kept (heap w) w'" using run by (rule keepsD)
  then show ?thesis by (simp add: kept_def)
qed

theorem exec_multistep_frame_witness:
  "length (heap demo_world)
     \<le> length (heap (snd (exec_multistep (demo_coordinator (Scalar NaN)) 0 4 3 demo_world)))
   \<and> heap (snd (exec_multistep (demo_coordinator (Scalar NaN)) 0 4 3 demo_world)) ! 0
       = PyList [1, 2]
   \<and> heap (snd (exec_multistep (demo_coordinator (Scalar NaN)) 0 4 3 demo_world)) ! 1
       = Arr (Dim [Dim [Scalar (Fin 2)], Dim [Scalar (Fin 3)]])
   \<and> fst (exec_multistep (demo_coordinator (Scalar NaN)) 0 4 3 demo_world)
       = Inr (Fin (1 / 2), Fin 2)"
proof -
  let ?C = "demo_coordinator (Scalar NaN)"
  have r: "fst (exec_multistep ?C 0 4 3 demo_world) = Inr (Fin (1 / 2), Fin 2)"
    by code_simp
  from exec_multistep_frame [of ?C 0 4 3 demo_world "fst (exec_multistep ?C 0 4 3 demo_world)"
      "snd (exec_multistep ?C 0 4 3 demo_world)"]
  have "length (heap demo_world) \<le> length (heap (snd (exec_multistep ?C 0 4 3 demo_world)))"
    and "\<forall>a < length (heap demo_world).
          heap (snd (exec_multistep ?C 0 4 3 demo_world)) ! a = heap demo_world ! a"
    by simp_all
  with r show ?thesis by (simp add: demo_world_def)
qed

subsection \<open>Rollout length\<close>

lemma on_sim_run: "on_sim f w = (r, w') \<Longrightarrow> r = Inr () \<and> w' = w\<lparr>sim := f (sim w)\<rparr>"
  by (auto simp: on_sim_def modify_def)

lemma rollout_body_count:
  assumes sc: "step_counter C cnt" and run: "rollout_body C targets actions i w = (Inr (), w')"
  shows "heap w' = heap w \<and> cnt (sim w') = Suc (cnt (sim w))"
  using run unfolding rollout_body_def
proof (cases rule: bnd_cases)
  case (returned tg w1)
  from seq_item_same [OF returned(1)] have w1: "w1 = w" .
  from returned(2) show ?thesis
  proof (cases rule: bnd_cases)
    case (returned u w2)
    from on_sim_run [OF returned(1)] w1 have w2: "w2 = w\<lparr>sim := set_target C tg (sim w)\<rparr>" by simp
    from returned(2) show ?thesis
    proof (cases rule: bnd_cases)
      case (returned ac w3)
      from seq_item_same [OF returned(1)] have w3: "w3 = w2" .
      from returned(2) show ?thesis
      proof (cases rule: bnd_cases)
        case (returned u w4)
        from on_sim_run [OF returned(1)] have w4: "w4 = w3\<lparr>sim := env_step C ac (sim w3)\<rparr>" by simp
        from on_sim_run [OF returned(2)] have "w' = w4\<lparr>sim := compute_loss C (sim w4)\<rparr>" by simp
        with w4 w3 w2 sc show ?thesis by (simp add: step_counter_def)
      qed simp
    qed simp
  qed simp
qed simp

lemma rollout_loop_count:
  assumes sc: "step_counter C cnt"
  shows "for_each xs (rollout_body C targets actions) w = (Inr (), w') \<Longrightarrow>
     heap w' = heap w \<and> cnt (sim w') = cnt (sim w) + length xs"
proof (induction xs arbitrary: w)
  case Nil
  then show ?case by (simp add: ret_def)
next
  case (Cons x xs)
  from Cons.prems have "bnd (rollout_body C targets actions x)
      (\<lambda>u. for_each xs (rollout_body C targets actions)) w = (Inr (), w')" by simp
  then show ?case
  proof (cases rule: bnd_cases)
    case (returned u w1)
    from returned(1) have "rollout_body C targets actions x w = (Inr (), w1)" by simp
    from rollout_body_count [OF sc this] Cons.IH [OF returned(2)] show ?thesis by simp
  qed simp
qed

lemma seq_len_kept:
  assumes "seq_len a w = (Inr L, w)" and "kept (heap w) w1"
  shows "seq_len a w1 = (Inr L, w1)"
proof -
  from assms(1) have a: "a < length (heap w)"
    by (auto simp: seq_len_def split: if_splits)
  with assms(2) have "a < length (heap w1)" and "heap w1 ! a = heap w ! a"
    by (simp_all add: kept_def)
  with assms(1) a show ?thesis by (simp add: seq_len_def)
qed

lemma kept_refl: "kept (heap w) w"
  by (simp add: kept_def)

lemma env_set_state_count:
  assumes sc: "step_counter C cnt" and run: "env_set_state C state w = (Inr u, w')"
  shows "cnt (sim w') = 0"
  using run unfolding env_set_state_def
proof (cases rule: bnd_cases)
  case (returned xs w1)
  from returned(2) show ?thesis
  proof (cases rule: bnd_cases)
    case (returned vs w2)
    from on_sim_run [OF returned(2)] sc show ?thesis by (simp add: step_counter_def)
  qed simp
qed simp

lemma forward_plain_count:
  assumes sc: "step_counter C cnt" and len: "seq_len targets w0 = (Inr L, w0)"
    and k: "kept (heap w0) w"
    and run: "forward_plain C state targets actions w = (Inr loss, w')"
  shows "cnt (sim w') = rollout_steps (steps C) L"
  using run unfolding forward_plain_def
proof (cases rule: bnd_cases)
  case (returned u w1)
  from env_set_state_count [OF sc returned(1)] have c1: "cnt (sim w1) = 0" .
  from keepsD [OF keeps_env_set_state k returned(1)] have k1: "kept (heap w0) w1" .
  from seq_len_kept [OF len k1] have sl: "seq_len targets w1 = (Inr L, w1)" .
  from returned(2) show ?thesis
  proof (cases rule: bnd_cases)
    case (returned n w2)
    with sl have n: "n = L" and w2: "w2 = w1" by simp_all
    from returned(2) show ?thesis
    proof (cases rule: bnd_cases)
      case (returned u2 w3)
      from returned(1) have "for_each [0 ..< rollout_steps (steps C) n]
          (rollout_body C targets actions) w2 = (Inr (), w3)" by simp
      from rollout_loop_count [OF sc this] c1 w2 n
      have "cnt (sim w3) = rollout_steps (steps C) L" by simp
      with returned(2) show ?thesis by (auto simp: gets_def)
    qed simp
  qed simp
qed simp

lemma ensuring_Inr:
  assumes "ensuring m fin s = (Inr x, s')"
  obtains s1 u where "m s = (Inr x, s1)" and "fin s1 = (Inr u, s')"
  using assms by (auto simp: ensuring_def split: sum.splits prod.splits)

lemma forward_tape_count:
  assumes sc: "step_counter C cnt" and len: "seq_len targets w0 = (Inr L, w0)"
    and k: "kept (heap w0) w"
    and run: "forward_tape C state targets actions w = (Inr res, w')"
  shows "cnt (sim w') = rollout_steps (steps C) L"
  using run unfolding forward_tape_def
proof (cases rule: bnd_cases)
  case (returned u w1)
  from env_set_state_count [OF sc returned(1)] have c1: "cnt (sim w1) = 0" .
  from keepsD [OF keeps_env_set_state k returned(1)] have k1: "kept (heap w0) w1" .
  from seq_len_kept [OF len k1] have sl: "seq_len targets w1 = (Inr L, w1)" .
  from returned(2) show ?thesis
  proof (cases rule: bnd_cases)
    case (returned n w2)
    with sl have n: "n = L" and w2: "w2 = w1" by simp_all
    from returned(2) show ?thesis
    proof (cases rule: bnd_cases)
      case (returned u2 w3)
      from on_sim_run [OF returned(1)] c1 w2 sc have c3: "cnt (sim w3) = 0"
        by (simp add: step_counter_def)
      from returned(2) show ?thesis
      proof (cases rule: bnd_cases)
        case (returned u3 w4)
        from returned(1) obtain w5 u5
          where body: "bnd (for_each [0 ..< rollout_steps (steps C) n] (rollout_body C targets actions))
                  (\<lambda>u. on_sim (set_grad C)) w3 = (Inr u3, w5)"
            and fin: "on_sim (tape_exit C) w5 = (Inr u5, w4)"
          by (rule ensuring_Inr)
        from body have c5: "cnt (sim w5) = rollout_steps (steps C) L"
        proof (cases rule: bnd_cases)
          case (returned u6 w6)
          from returned(1) have "for_each [0 ..< rollout_steps (steps C) n]
              (rollout_body C targets actions) w3 = (Inr (), w6)" by simp
          from rollout_loop_count [OF sc this] c3 n
          have "cnt (sim w6) = rollout_steps (steps C) L" by simp
          with on_sim_run [OF returned(2)] sc show ?thesis by (simp add: step_counter_def)
        qed simp
        from on_sim_run [OF fin] c5 sc have "cnt (sim w4) = rollout_steps (steps C) L"
          by (simp add: step_counter_def)
        with returned(2) show ?thesis by (auto simp: gets_def)
      qed simp
    qed simp
  qed simp
qed simp

lemma nan_gate_sim: "nan_gate x g lf l w = (r, w') \<Longrightarrow> sim w' = sim w"
  by (auto simp: nan_gate_eq split: if_splits)

lemma keeps_encode_icp: "keeps (kept h0) (encode_icp C state)"
  unfolding encode_icp_def Let_def case_prod_beta
  by (intro keeps_bnd keeps_first_frame keeps_lift_res keeps_substitute_first keeps_ret)

lemma solve_multistep_count:
  assumes sc: "step_counter C cnt" and len: "seq_len targets w = (Inr L, w)"
    and run: "solve_multistep C state actions targets w = (Inr res, w')"
  shows "cnt (sim w') = rollout_steps (steps C) L"
  using run unfolding solve_multistep_def
proof (cases rule: bnd_cases)
  case (returned enc w1)
  obtain x_hat lf state_hat where enc: "enc = (x_hat, lf, state_hat)" by (cases enc)
  from keepsD [OF keeps_encode_emd kept_refl returned(1)] have k1: "kept (heap w) w1" .
  from returned(2) enc have "bnd (forward_tape C state_hat targets actions)
      (\<lambda>(loss, x_hat_grad, aux). nan_gate x_hat (clamp x_hat_grad) lf loss) w1 = (Inr res, w')"
    by simp
  then show ?thesis
  proof (cases rule: bnd_cases)
    case (returned fw w2)
    from forward_tape_count [OF sc len k1 returned(1)]
    have "cnt (sim w2) = rollout_steps (steps C) L" .
    moreover from returned(2) have "sim w' = sim w2"
      by (cases fw) (auto dest: nan_gate_sim)
    ultimately show ?thesis by simp
  qed simp
qed simp

lemma solve_multistep_icp_count:
  assumes sc: "step_counter C cnt" and len: "seq_len targets w = (Inr L, w)"
    and run: "solve_multistep_icp C state actions targets w = (Inr res, w')"
  shows "cnt (sim w') = rollout_steps (steps C) L"
  using run unfolding solve_multistep_icp_def
proof (cases rule: bnd_cases)
  case (returned enc w1)
  obtain x_hat state_hat where enc: "enc = (x_hat, state_hat)" by (cases enc)
  from keepsD [OF keeps_encode_icp kept_refl returned(1)] have k1: "kept (heap w) w1" .
  from returned(2) enc have "bnd (forward_tape C state_hat targets actions)
      (\<lambda>(loss, x_hat_grad, aux). nan_gate x_hat (clamp x_hat_grad) (Fin 0) loss) w1 = (Inr res, w')"
    by simp
  then show ?thesis
  proof (cases rule: bnd_cases)
    case (returned fw w2)
    from forward_tape_count [OF sc len k1 returned(1)]
    have "cnt (sim w2) = rollout_steps (steps C) L" .
    moreover from returned(2) have "sim w' = sim w2"
      by (cases fw) (auto dest: nan_gate_sim)
    ultimately show ?thesis by simp
  qed simp
qed simp

lemma exec_multistep_count:
  assumes sc: "step_counter C cnt" and len: "seq_len targets w = (Inr L, w)"
    and run: "exec_multistep C state actions targets w = (Inr res, w')"
  shows "cnt (sim w') = rollout_steps (steps C) L"
  using run unfolding exec_multistep_def
proof (cases rule: bnd_cases)
  case (returned enc w1)
  obtain x_hat lf state_hat where enc: "enc = (x_hat, lf, state_hat)" by (cases enc)
  from keepsD [OF keeps_encode_emd kept_refl returned(1)] have k1: "kept (heap w) w1" .
  from returned(2) enc have "bnd (forward_plain C state_hat targets actions)
      (\<lambda>loss. ret (lf, loss)) w1 = (Inr res, w')"
    by simp
  then show ?thesis
  proof (cases rule: bnd_cases)
    case (returned loss w2)
    from forward_plain_count [OF sc len k1 returned(1)]
    have "cnt (sim w2) = rollout_steps (steps C) L" .
    with returned(2) show ?thesis by (simp add: ret_def)
  qed simp
qed simp

text \<open>
  C3. With a target sequence of length \<open>L\<close>, a call of \<^verbatim>\<open>solve_multistep\<close> (of either
  module) or of \<^verbatim>\<open>exec_multistep\<close> that returns has taken
  \<open>rollout_steps (steps C) L\<close> simulator steps since its \<^verbatim>\<open>env.set_state\<close>, whatever
  the simulator, as long as it has a step counter. That length is \<open>L\<close> when the
  configured step count \<open>s\<close> is unset or \<open>s \<le> 0\<close>, and \<open>min s L\<close> when \<open>s > 0\<close>; it
  never exceeds \<open>L\<close>.
\<close>

theorem rollout_steps_effective:
  "(step_counter C cnt \<longrightarrow> seq_len targets w = (Inr L, w) \<longrightarrow>
      (solve_multistep C state actions targets w = (Inr res, w') \<or>
       solve_multistep_icp C state actions targets w = (Inr res, w') \<or>
       exec_multistep C state actions targets w = (Inr ex, w')) \<longrightarrow>
      cnt (sim w') = rollout_steps (steps C) L)
   \<and> rollout_steps None L = L
   \<and> (\<forall>s. s \<le> 0 \<longrightarrow> rollout_steps (Some s) L = L)
   \<and> (\<forall>s. s > 0 \<longrightarrow> int (rollout_steps (Some s) L) = min s (int L))
   \<and> (\<forall>cfg. rollout_steps cfg L \<le> L)"
proof (intro conjI impI allI)
  assume sc: "step_counter C cnt" and len: "seq_len targets w = (Inr L, w)"
    and run: "solve_multistep C state actions targets w = (Inr res, w') \<or>
       solve_multistep_icp C state actions targets w = (Inr res, w') \<or>
       exec_multistep C state actions targets w = (Inr ex, w')"
  from run show "cnt (sim w') = rollout_steps (steps C) L"
  proof (elim disjE)
    assume "solve_multistep C state actions targets w = (Inr res, w')"
    with sc len show ?thesis by (rule solve_multistep_count)
  next
    assume "solve_multistep_icp C state actions targets w = (Inr res, w')"
    with sc len show ?thesis by (rule solve_multistep_icp_count)
  next
    assume "exec_multistep C state actions targets w = (Inr ex, w')"
    with sc len show ?thesis by (rule exec_multistep_count)
  qed
qed (auto simp: rollout_steps_def split: option.splits)

theorem rollout_steps_effective_witness:
  "sim (snd (solve_multistep (demo_coordinator (Scalar (Fin 0))) 0 4 3 demo_world)) = 2
   \<and> sim (snd (exec_multistep ((demo_coordinator (Scalar (Fin 0)))\<lparr>steps := Some 1\<rparr>) 0 4 3
        demo_world)) = 1
   \<and> sim (snd (solve_multistep_icp ((demo_coordinator (Scalar (Fin 0)))\<lparr>steps := None\<rparr>) 0 4 3
        demo_world)) = 2
   \<and> sim (snd (exec_multistep ((demo_coordinator (Scalar (Fin 0)))\<lparr>steps := Some (- 2)\<rparr>) 0 4 3
        demo_world)) = 2
   \<and> rollout_steps None 5 = 5
   \<and> rollout_steps (Some (- 2)) 5 = 5
   \<and> rollout_steps (Some 0) 5 = 5
   \<and> int (rollout_steps (Some 3) 5) = 3
   \<and> int (rollout_steps (Some 9) 5) = 5
   \<and> rollout_steps (Some 9) 5 \<le> 5"
proof -
  let ?C = "demo_coordinator (Scalar (Fin 0))"
  let ?a = "solve_multistep ?C 0 4 3 demo_world"
  let ?b = "exec_multistep (?C\<lparr>steps := Some 1\<rparr>) 0 4 3 demo_world"
  let ?c = "solve_multistep_icp (?C\<lparr>steps := None\<rparr>) 0 4 3 demo_world"
  let ?d = "exec_multistep (?C\<lparr>steps := Some (- 2)\<rparr>) 0 4 3 demo_world"
  have sc: "step_counter (?C\<lparr>steps := k\<rparr>) (\<lambda>e. e)" for k
    by (simp add: step_counter_def demo_coordinator_def)
  have C: "?C\<lparr>steps := Some 5\<rparr> = ?C" by (simp add: demo_coordinator_def)
  have len: "seq_len 3 demo_world = (Inr 2, demo_world)"
    by (simp add: seq_len_def demo_world_def)
  have "\<not> isl (fst ?a)" by code_simp
  then have a: "?a = (Inr (projr (fst ?a)), snd ?a)" by (simp add: prod_eq_iff)
  have "\<not> isl (fst ?b)" by code_simp
  then have b: "?b = (Inr (projr (fst ?b)), snd ?b)" by (simp add: prod_eq_iff)
  have "\<not> isl (fst ?c)" by code_simp
  then have c: "?c = (Inr (projr (fst ?c)), snd ?c)" by (simp add: prod_eq_iff)
  have "\<not> isl (fst ?d)" by code_simp
  then have d: "?d = (Inr (projr (fst ?d)), snd ?d)" by (simp add: prod_eq_iff)
  from rollout_steps_effective [where C = "?C\<lparr>steps := Some 5\<rparr>" and cnt = "\<lambda>e. e" and targets = 3
      and w = demo_world and L = 2 and state = 0 and actions = 4 and res = "projr (fst ?a)"
      and w' = "snd ?a", THEN conjunct1] sc len a C
  have 1: "sim (snd ?a) = 2" by (simp add: rollout_steps_def demo_coordinator_def)
  from rollout_steps_effective [where C = "?C\<lparr>steps := Some 1\<rparr>" and cnt = "\<lambda>e. e" and targets = 3
      and w = demo_world and L = 2 and state = 0 and actions = 4 and ex = "projr (fst ?b)"
      and w' = "snd ?b", THEN conjunct1] sc len b
  have 2: "sim (snd ?b) = 1" by (simp add: rollout_steps_def)
  from rollout_steps_effective [where C = "?C\<lparr>steps := None\<rparr>" and cnt = "\<lambda>e. e" and targets = 3
      and w = demo_world and L = 2 and state = 0 and actions = 4 and res = "projr (fst ?c)"
      and w' = "snd ?c", THEN conjunct1] sc len c
  have 3: "sim (snd ?c) = 2" by (simp add: rollout_steps_def)
  from rollout_steps_effective [where C = "?C\<lparr>steps := Some (- 2)\<rparr>" and cnt = "\<lambda>e. e" and targets = 3
      and w = demo_world and L = 2 and state = 0 and actions = 4 and ex = "projr (fst ?d)"
      and w' = "snd ?d", THEN conjunct1] sc len d
  have 4: "sim (snd ?d) = 2" by (simp add: rollout_steps_def)
  from rollout_steps_effective [where L = 5, THEN conjunct2]
  have 5: "rollout_steps None 5 = 5 \<and> rollout_steps (Some (- 2)) 5 = 5 \<and> rollout_steps (Some 0) 5 = 5
      \<and> int (rollout_steps (Some 3) 5) = 3 \<and> int (rollout_steps (Some 9) 5) = 5
      \<and> rollout_steps (Some 9) 5 \<le> 5" by auto
  from 1 2 3 4 5 show ?thesis by simp
qed

section \<open>Properties of the training loops\<close>

subsection \<open>One batch, one epoch\<close>

lemma quietD: "quiet p \<Longrightarrow> p s = (r, s') \<Longrightarrow> r = Inr () \<and> same_vars s s'"
  unfolding quiet_def by blast

lemma same_vars_trans: "same_vars s s1 \<Longrightarrow> same_vars s1 s' \<Longrightarrow> same_vars s s'"
  by (simp add: same_vars_def)

lemma quiet_perform: "quiet (perform_ext T c)"
  by (simp add: quiet_def perform_ext_def modify_def same_vars_def)

lemma quiet_ret: "quiet (ret ())"
  by (simp add: quiet_def ret_def same_vars_def)

lemma quiet_bnd:
  assumes p: "quiet p" and q: "\<And>u. quiet (q u)"
  shows "quiet (bnd p q)"
  unfolding quiet_def
proof (intro allI impI)
  fix s r s'
  assume "bnd p q s = (r, s')"
  then show "r = Inr () \<and> same_vars s s'"
  proof (cases rule: bnd_cases)
    case (raised e)
    with quietD [OF p] show ?thesis by blast
  next
    case (returned x s1)
    from quietD [OF p returned(1)] quietD [OF q returned(2)] show ?thesis
      by (blast intro: same_vars_trans)
  qed
qed

lemma quiet_update_network: "quiet (update_network_mpi T guarded st g l ul)"
  unfolding update_network_mpi_def
  by (cases st; cases g) (simp_all add: quiet_bnd quiet_perform quiet_ret)

lemma quiet_batch_end_focal: "quiet (batch_end_focal T)"
  by (auto simp: quiet_def batch_end_focal_def bnd_def gets_def modify_def perform_ext_def
        ret_def same_vars_def split: if_splits)

lemma quiet_batch_end_plain: "quiet (batch_end_plain T)"
  by (auto simp: quiet_def batch_end_plain_def bnd_def gets_def modify_def perform_ext_def
        ret_def same_vars_def split: if_splits)

lemma add_loss_run:
  "i < length (procAvgLoss s) \<Longrightarrow>
     add_loss i x s = (Inr (), s\<lparr>procAvgLoss := (procAvgLoss s)[i := fadd (procAvgLoss s ! i) x]\<rparr>)"
  by (simp add: add_loss_def bnd_def gets_def lift_res_def py_nth_def modify_def)

lemma batch_step_same: "batch_step i ev s s1 \<Longrightarrow> same_vars s1 s' \<Longrightarrow> batch_step i ev s s'"
  by (simp add: batch_step_def same_vars_def)

lemma account_block:
  assumes i: "i < length (procAvgLoss s0)"
    and run: "(if rs \<noteq> None \<and> g \<noteq> None
               then bnd (add_loss i l) (\<lambda>u. bnd (perform_ext T (MpiAvg l)) (\<lambda>u. count_efficient))
               else perform_ext T MpiAvgZero) s0 = (r, s1)"
  shows "r = Inr () \<and> trace s1 = trace s0 \<and> use_grad s1 = use_grad s0 \<and>
         dataloader s1 = dataloader s0 \<and>
         procAvgLoss s1 = (procAvgLoss s0)[i := foldl fadd (procAvgLoss s0 ! i)
                             (if rs \<noteq> None \<and> g \<noteq> None then [l] else [])] \<and>
         efficientBatchCnt s1 = efficientBatchCnt s0 +
                             length (if rs \<noteq> None \<and> g \<noteq> None then [l] else [])"
proof (cases "rs \<noteq> None \<and> g \<noteq> None")
  case True
  with run i show ?thesis
    by (auto simp: bnd_def add_loss_run perform_ext_def modify_def count_efficient_def)
next
  case False
  with run show ?thesis
    by (auto simp: perform_ext_def modify_def)
qed

lemma counted_loss_solve:
  "counted_loss i (SolveCall i b (rs, g, lf, l)) = (if rs \<noteq> None \<and> g \<noteq> None then [l] else [])"
  by (cases rs; cases g) simp_all

lemma after_solve_step:
  assumes i: "i < length (procAvgLoss s)"
    and run: "after_solve T guarded i res (s\<lparr>ext := m, trace := trace s @ [SolveCall i b res]\<rparr>) = (r, s')"
  shows "r = Inr () \<and> batch_step i (SolveCall i b res) s s'"
proof -
  obtain rs g lf l where res: "res = (rs, g, lf, l)" by (cases res)
  let ?s0 = "s\<lparr>ext := m, trace := trace s @ [SolveCall i b (rs, g, lf, l)]\<rparr>"
  have tail: "quiet (bnd (update_network_mpi T guarded rs g lf False)
                 (\<lambda>u. if num_procs T > 1 then perform_ext T SyncParams else ret ()))"
    by (simp add: quiet_bnd quiet_update_network quiet_perform quiet_ret)
  have i0: "i < length (procAvgLoss ?s0)" using i by simp
  from run have "after_solve T guarded i (rs, g, lf, l) ?s0 = (r, s')"
    by (simp add: res)
  from this [unfolded after_solve_def prod.case] show ?thesis
  proof (cases rule: bnd_cases)
    case (raised e)
    with account_block [OF i0 raised(1)] show ?thesis by simp
  next
    case (returned u s1)
    from account_block [OF i0 returned(1)]
    have "batch_step i (SolveCall i b res) s s1"
      by (simp add: batch_step_def res counted_loss_solve del: counted_loss.simps)
    moreover from quietD [OF tail returned(2)] have "r = Inr ()" and "same_vars s1 s'"
      by simp_all
    ultimately show ?thesis by (blast intro: batch_step_same)
  qed
qed

lemma eval_batch_step:
  assumes i: "i < length (procAvgLoss s)" and run: "eval_batch T i b s = (r, s')"
  shows "r = Inr () \<and> (\<exists>lf l. batch_step i (ExecCall i b lf l) s s')"
proof -
  obtain lf l m where ex: "exec_call T b (ext s) = ((lf, l), m)"
    by (metis surj_pair)
  with i run have "r = Inr ()" and
    "s' = s\<lparr>ext := perform T (MpiAvg l) (perform T (UpdateLoss b l) m),
            trace := trace s @ [ExecCall i b lf l],
            procAvgLoss := (procAvgLoss s)[i := fadd (procAvgLoss s ! i) l],
            efficientBatchCnt := efficientBatchCnt s + 1\<rparr>"
    by (auto simp: eval_batch_def call_exec_def bnd_def add_loss_run perform_ext_def modify_def
        count_efficient_def)
  then show ?thesis by (auto simp: batch_step_def)
qed

lemma batch_focal_step:
  assumes i: "i < length (procAvgLoss s)" and run: "batch_focal T i b s = (r, s')"
  shows "r = Inr () \<and> (\<exists>ev. batch_step i ev s s' \<and>
           (if use_grad s then \<exists>res. ev = SolveCall i b res else \<exists>lf l. ev = ExecCall i b lf l))"
proof (cases "use_grad s")
  case True
  obtain res m where sc: "solve_call T b (ext s) = (res, m)" by (cases "solve_call T b (ext s)")
  let ?s0 = "s\<lparr>ext := m, trace := trace s @ [SolveCall i b res]\<rparr>"
  from run True sc have "bnd (after_solve T False i res) (\<lambda>u. batch_end_focal T) ?s0 = (r, s')"
    by (simp add: batch_focal_def bnd_def gets_def call_solve_def)
  then show ?thesis
  proof (cases rule: bnd_cases)
    case (raised e)
    with after_solve_step [OF i raised(1)] show ?thesis by simp
  next
    case (returned u s1)
    from after_solve_step [OF i returned(1)] have st: "batch_step i (SolveCall i b res) s s1"
      by simp
    from quietD [OF quiet_batch_end_focal returned(2)] st
    have "r = Inr ()" and "batch_step i (SolveCall i b res) s s'"
      by (blast intro: batch_step_same)+
    with True show ?thesis by (cases res) auto
  qed
next
  case False
  with run have "bnd (eval_batch T i b) (\<lambda>u. batch_end_focal T) s = (r, s')"
    by (simp add: batch_focal_def bnd_def gets_def)
  then show ?thesis
  proof (cases rule: bnd_cases)
    case (raised e)
    with eval_batch_step [OF i raised(1)] show ?thesis by simp
  next
    case (returned u s1)
    from eval_batch_step [OF i returned(1)] obtain lf l
      where st: "batch_step i (ExecCall i b lf l) s s1" by blast
    from quietD [OF quiet_batch_end_focal returned(2)] st
    have "r = Inr ()" and "batch_step i (ExecCall i b lf l) s s'"
      by (blast intro: batch_step_same)+
    with False show ?thesis by auto
  qed
qed

lemma batch_plain_step:
  assumes i: "i < length (procAvgLoss s)" and run: "batch_plain T i b s = (r, s')"
  shows "r = Inr () \<and> (\<exists>res. batch_step i (SolveCall i b res) s s')"
proof -
  obtain res m where sc: "solve_call T b (ext s) = (res, m)" by (cases "solve_call T b (ext s)")
  let ?s0 = "s\<lparr>ext := m, trace := trace s @ [SolveCall i b res]\<rparr>"
  from run sc have "bnd (after_solve T True i res) (\<lambda>u. batch_end_plain T) ?s0 = (r, s')"
    by (simp add: batch_plain_def bnd_def call_solve_def)
  then show ?thesis
  proof (cases rule: bnd_cases)
    case (raised e)
    with after_solve_step [OF i raised(1)] show ?thesis by simp
  next
    case (returned u s1)
    from after_solve_step [OF i returned(1)] have st: "batch_step i (SolveCall i b res) s s1"
      by simp
    from quietD [OF quiet_batch_end_plain returned(2)] st
    have "r = Inr ()" and "batch_step i (SolveCall i b res) s s'"
      by (blast intro: batch_step_same)+
    then show ?thesis by blast
  qed
qed

lemma counted_losses_Nil [simp]: "counted_losses i [] = []"
  by (simp add: counted_losses_def)

lemma counted_losses_Cons [simp]:
  "counted_losses i (ev # evs) = counted_loss i ev @ counted_losses i evs"
  by (simp add: counted_losses_def)

lemma counted_losses_append [simp]:
  "counted_losses i (xs @ ys) = counted_losses i xs @ counted_losses i ys"
  by (simp add: counted_losses_def)

lemma batch_run_Nil: "batch_run i [] s s"
  by (simp add: batch_run_def)

lemma batch_run_Cons:
  assumes i: "i < length (procAvgLoss s)"
    and st: "batch_step i ev s s1" and rn: "batch_run i evs s1 s'"
  shows "batch_run i (ev # evs) s s'"
  using assms by (simp add: batch_run_def batch_step_def)

lemma batch_loop:
  assumes step: "\<And>b s r s'. i < length (procAvgLoss s) \<Longrightarrow> use_grad s = ug \<Longrightarrow>
      body b s = (r, s') \<Longrightarrow> r = Inr () \<and> (\<exists>ev. batch_step i ev s s' \<and> is_call_of i ug' ev)"
  shows "i < length (procAvgLoss s) \<Longrightarrow> use_grad s = ug \<Longrightarrow> for_each bs body s = (r, s') \<Longrightarrow>
      r = Inr () \<and> (\<exists>evs. batch_run i evs s s' \<and> (\<forall>ev \<in> set evs. is_call_of i ug' ev))"
proof (induction bs arbitrary: s)
  case Nil
  then have "r = Inr ()" and "s' = s" by (simp_all add: ret_def)
  with batch_run_Nil [of i s] show ?case by auto
next
  case (Cons b bs)
  from Cons.prems(3) have "bnd (body b) (\<lambda>u. for_each bs body) s = (r, s')" by simp
  then show ?case
  proof (cases rule: bnd_cases)
    case (raised e)
    with step [OF Cons.prems(1,2) raised(1)] show ?thesis by simp
  next
    case (returned u s1)
    from step [OF Cons.prems(1,2) returned(1)] obtain ev
      where st: "batch_step i ev s s1" and ev: "is_call_of i ug' ev" by blast
    from st Cons.prems(1,2) have "i < length (procAvgLoss s1)" and "use_grad s1 = ug"
      by (simp_all add: batch_step_def)
    from Cons.IH [OF this returned(2)] obtain evs
      where "r = Inr ()" and rn: "batch_run i evs s1 s'"
        and evs: "\<forall>ev \<in> set evs. is_call_of i ug' ev" by blast
    with batch_run_Cons [OF Cons.prems(1) st rn] ev show ?thesis
      by (intro conjI exI [where x = "ev # evs"]) simp_all
  qed
qed

lemma batch_loop_focal:
  assumes "i < length (procAvgLoss s)" and "for_each bs (batch_focal T i) s = (r, s')"
  shows "r = Inr () \<and>
     (\<exists>evs. batch_run i evs s s' \<and> (\<forall>ev \<in> set evs. is_call_of i (use_grad s) ev))"
proof (rule batch_loop [where ug = "use_grad s" and body = "batch_focal T i", OF _ assms(1) refl assms(2)])
  fix b t r t'
  assume "i < length (procAvgLoss t)" "use_grad t = use_grad s" "batch_focal T i b t = (r, t')"
  with batch_focal_step [of i t T b r t']
  show "r = Inr () \<and> (\<exists>ev. batch_step i ev t t' \<and> is_call_of i (use_grad s) ev)"
    by (auto split: if_splits)
qed

lemma batch_loop_plain:
  assumes "i < length (procAvgLoss s)" and "for_each bs (batch_plain T i) s = (r, s')"
  shows "r = Inr () \<and> (\<exists>evs. batch_run i evs s s' \<and> (\<forall>ev \<in> set evs. is_call_of i True ev))"
proof (rule batch_loop [where ug = "use_grad s" and body = "batch_plain T i", OF _ assms(1) refl assms(2)])
  fix b t r t'
  assume "i < length (procAvgLoss t)" "batch_plain T i b t = (r, t')"
  with batch_plain_step [of i t T b r t']
  show "r = Inr () \<and> (\<exists>ev. batch_step i ev t t' \<and> is_call_of i True ev)"
    by auto
qed

lemma fdiv_count_pos: "0 < n \<Longrightarrow> \<exists>v. fdiv_count a n = Inr v"
  by (cases a; cases n) simp_all

lemma fdiv_count_zero [simp]: "fdiv_count a 0 = Inl ZeroDivisionError"
  by simp

lemma epoch_average_run:
  assumes i: "i < length (procAvgLoss s)" and run: "epoch_average i s = (r, s')"
  shows "(efficientBatchCnt s = 0 \<and> r = Inl ZeroDivisionError \<and> s' = s)
       \<or> (\<exists>v. fdiv_count (procAvgLoss s ! i) (efficientBatchCnt s) = Inr v \<and> r = Inr () \<and>
              s' = s\<lparr>procAvgLoss := (procAvgLoss s)[i := v], trace := trace s @ [EpochMsg i v]\<rparr>)"
proof (cases "efficientBatchCnt s = 0")
  case True
  with i run show ?thesis
    by (auto simp: epoch_average_def bnd_def gets_def lift_res_def py_nth_def)
next
  case False
  then obtain v where "fdiv_count (procAvgLoss s ! i) (efficientBatchCnt s) = Inr v"
    using fdiv_count_pos by blast
  with i run show ?thesis
    by (auto simp: epoch_average_def bnd_def gets_def lift_res_def py_nth_def modify_def
        log_event_def)
qed

lemma switch_mode_run:
  assumes "switch_mode T i s = (r, s')"
  shows "r = Inr () \<and> procAvgLoss s' = procAvgLoss s \<and>
         trace s' = trace s @ (if i mod 5 = 0 then [FocalRebuild i] else []) \<and>
         use_grad s' = (i mod 5 = 0 \<or> (i mod 5 \<noteq> 4 \<and> use_grad s))"
  using assms
  by (auto simp: switch_mode_def update_focal_scheme_def bnd_def modify_def ret_def
      split: if_splits prod.splits)

lemma epoch_focal_result:
  assumes i: "i < length (procAvgLoss s)" and run: "epoch_focal T i s = (r, s')"
  shows "\<exists>evs. (\<forall>ev \<in> set evs. is_call_of i (use_grad s) ev) \<and>
           epoch_post i evs (if i mod 5 = 0 then [FocalRebuild i] else []) s r s' \<and>
           (r = Inr () \<longrightarrow> use_grad s' = (i mod 5 = 0 \<or> (i mod 5 \<noteq> 4 \<and> use_grad s)))"
proof -
  let ?s0 = "s\<lparr>batchCnt := 0, efficientBatchCnt := 0\<rparr>"
  let ?rest = "\<lambda>u::unit. bnd (epoch_average i) (\<lambda>u. switch_mode T i)"
  from run have "bnd (for_each (dataloader s) (batch_focal T i)) ?rest ?s0 = (r, s')"
    by (simp add: epoch_focal_def bnd_def modify_def gets_def)
  then show ?thesis
  proof (cases rule: bnd_cases)
    case (raised e)
    with batch_loop_focal [of i ?s0 "dataloader s" T "Inl e" s'] i show ?thesis by simp
  next
    case (returned u s1)
    from batch_loop_focal [of i ?s0 "dataloader s" T "Inr u" s1] i returned(1) obtain evs
      where rn: "batch_run i evs ?s0 s1"
        and evs: "\<forall>ev \<in> set evs. is_call_of i (use_grad s) ev" by auto
    from rn i have i1: "i < length (procAvgLoss s1)" by (simp add: batch_run_def)
    from rn i have acc: "procAvgLoss s1 ! i = foldl fadd (procAvgLoss s ! i) (counted_losses i evs)"
      and cnt: "efficientBatchCnt s1 = length (counted_losses i evs)"
      and tr: "trace s1 = trace s @ evs" and ug: "use_grad s1 = use_grad s"
      and pl: "procAvgLoss s1 = (procAvgLoss s)[i := foldl fadd (procAvgLoss s ! i) (counted_losses i evs)]"
      by (simp_all add: batch_run_def)
    from returned(2) show ?thesis
    proof (cases rule: bnd_cases)
      case (raised e)
      with epoch_average_run [OF i1 raised(1)] cnt tr ug pl evs show ?thesis
        by (intro exI [where x = evs]) (auto simp: epoch_post_def)
    next
      case (returned u2 s2)
      from epoch_average_run [OF i1 returned(1)] obtain v
        where v: "fdiv_count (procAvgLoss s1 ! i) (efficientBatchCnt s1) = Inr v"
          and s2: "s2 = s1\<lparr>procAvgLoss := (procAvgLoss s1)[i := v], trace := trace s1 @ [EpochMsg i v]\<rparr>"
        by auto
      from switch_mode_run [OF returned(2)] s2 v acc cnt tr ug pl evs show ?thesis
        by (intro exI [where x = evs]) (auto simp: epoch_post_def)
    qed
  qed
qed

lemma epoch_plain_result:
  assumes i: "i < length (procAvgLoss s)" and run: "epoch_plain T i s = (r, s')"
  shows "\<exists>evs. (\<forall>ev \<in> set evs. is_call_of i True ev) \<and> epoch_post i evs [] s r s'"
proof -
  let ?s0 = "s\<lparr>batchCnt := 0, efficientBatchCnt := 0\<rparr>"
  from run have "bnd (for_each (dataloader s) (batch_plain T i)) (\<lambda>u. epoch_average i) ?s0 = (r, s')"
    by (simp add: epoch_plain_def bnd_def modify_def gets_def)
  then show ?thesis
  proof (cases rule: bnd_cases)
    case (raised e)
    with batch_loop_plain [of i ?s0 "dataloader s" T "Inl e" s'] i show ?thesis by simp
  next
    case (returned u s1)
    from batch_loop_plain [of i ?s0 "dataloader s" T "Inr u" s1] i returned(1) obtain evs
      where rn: "batch_run i evs ?s0 s1"
        and evs: "\<forall>ev \<in> set evs. is_call_of i True ev" by auto
    from rn i have i1: "i < length (procAvgLoss s1)" by (simp add: batch_run_def)
    from rn i have acc: "procAvgLoss s1 ! i = foldl fadd (procAvgLoss s ! i) (counted_losses i evs)"
      and cnt: "efficientBatchCnt s1 = length (counted_losses i evs)"
      and tr: "trace s1 = trace s @ evs" and ug: "use_grad s1 = use_grad s"
      and pl: "procAvgLoss s1 = (procAvgLoss s)[i := foldl fadd (procAvgLoss s ! i) (counted_losses i evs)]"
      by (simp_all add: batch_run_def)
    from epoch_average_run [OF i1 returned(2)] acc cnt tr ug pl evs show ?thesis
      by (intro exI [where x = evs]) (auto simp: epoch_post_def)
  qed
qed

lemma for_each_upt:
  assumes step: "\<And>i s r s'. a \<le> i \<Longrightarrow> i < n \<Longrightarrow> I i s \<Longrightarrow> body i s = (r, s') \<Longrightarrow>
      (r = Inr () \<and> I (Suc i) s') \<or> ((\<exists>e. r = Inl e) \<and> E s')"
  shows "a \<le> k \<Longrightarrow> k \<le> n \<Longrightarrow> I k s \<Longrightarrow> for_each [k ..< n] body s = (r, s') \<Longrightarrow>
      (r = Inr () \<and> I n s') \<or> ((\<exists>e. r = Inl e) \<and> E s')"
proof (induction "n - k" arbitrary: k s)
  case 0
  then have "k = n" by simp
  with "0.prems" show ?case by (simp add: ret_def)
next
  case (Suc d)
  then have kn: "k < n" by simp
  then have "[k ..< n] = k # [Suc k ..< n]" by (simp add: upt_conv_Cons)
  with Suc.prems(4) have "bnd (body k) (\<lambda>u. for_each [Suc k ..< n] body) s = (r, s')" by simp
  then show ?case
  proof (cases rule: bnd_cases)
    case (raised e)
    with step [OF Suc.prems(1) kn Suc.prems(3) raised(1)] show ?thesis by auto
  next
    case (returned u s1)
    with step [OF Suc.prems(1) kn Suc.prems(3) returned(1)] have I1: "I (Suc k) s1" by auto
    from Suc.hyps(2) have d: "d = n - Suc k" by simp
    from Suc.prems(1) have "a \<le> Suc k" by simp
    from Suc.hyps(1) [OF d this _ I1 returned(2)] kn show ?thesis by simp
  qed
qed

lemma is_call_of_place: "is_call_of i ug ev \<Longrightarrow> event_place ev = 3 * i \<and> event_epoch ev = i"
  by (cases ev) auto

lemma is_call_of_mode: "is_call_of i (i mod 5 \<noteq> 0) ev \<Longrightarrow> event_in_mode ev"
  by (cases ev) auto

lemma sorted_const: "\<forall>x \<in> set xs. f x = (c::nat) \<Longrightarrow> sorted (map f xs)"
  by (induction xs) auto

lemma mode_inv_ok: "mode_inv n i s \<Longrightarrow> mode_ok s"
  by (simp add: mode_inv_def mode_ok_def)

lemma mode_inv_step:
  assumes i: "i < n" and inv: "mode_inv n i s" and run: "epoch_focal T i s = (r, s')"
  shows "(r = Inr () \<and> mode_inv n (Suc i) s') \<or> ((\<exists>e. r = Inl e) \<and> mode_ok s')"
proof -
  from inv i have il: "i < length (procAvgLoss s)" and ug: "use_grad s = (i mod 5 \<noteq> 0)"
    and old: "\<forall>ev \<in> set (trace s). event_in_mode ev \<and> event_place ev < 3 * i"
    and srt: "sorted (map event_place (trace s))" and len: "length (procAvgLoss s) = n"
    by (simp_all add: mode_inv_def)
  from epoch_focal_result [OF il run] ug obtain evs
    where evs: "\<forall>ev \<in> set evs. is_call_of i (i mod 5 \<noteq> 0) ev"
      and post: "epoch_post i evs (if i mod 5 = 0 then [FocalRebuild i] else []) s r s'"
      and ug': "r = Inr () \<longrightarrow> use_grad s' = (i mod 5 = 0 \<or> (i mod 5 \<noteq> 4 \<and> i mod 5 \<noteq> 0))"
    by auto
  from evs have pl: "\<forall>ev \<in> set evs. event_place ev = 3 * i" and md: "\<forall>ev \<in> set evs. event_in_mode ev"
    by (blast dest: is_call_of_place is_call_of_mode)+
  from pl have se: "sorted (map event_place evs)" by (rule sorted_const)
  from post show ?thesis unfolding epoch_post_def
  proof (elim disjE conjE exE)
    assume "r = Inl ZeroDivisionError" and tr: "trace s' = trace s @ evs"
    moreover from tr old srt pl md se have "mode_ok s'"
      by (auto simp: mode_ok_def sorted_append)
    ultimately show ?thesis by blast
  next
    fix v
    assume r: "r = Inr ()"
      and tr: "trace s' = trace s @ evs @ EpochMsg i v # (if i mod 5 = 0 then [FocalRebuild i] else [])"
      and pa: "procAvgLoss s' = (procAvgLoss s)[i := v]"
    from ug' r have "use_grad s' = (Suc i mod 5 \<noteq> 0)" by (simp add: mod_Suc) presburger
    moreover from pa len have "length (procAvgLoss s') = n" by simp
    moreover from tr old pl md
    have "\<forall>ev \<in> set (trace s'). event_in_mode ev \<and> event_place ev < 3 * Suc i"
      by (auto split: if_splits)
    moreover from tr old srt pl se have "sorted (map event_place (trace s'))"
      by (auto simp: sorted_append split: if_splits)
    ultimately show ?thesis using r by (simp add: mode_inv_def)
  qed
qed

lemma mode_inv_start: "mode_inv n 0 (train_start n bs m)"
  by (simp add: mode_inv_def train_start_def)

lemma counted_loss_other: "event_epoch ev \<noteq> j \<Longrightarrow> counted_loss j ev = []"
  by (induction j ev rule: counted_loss.induct) auto

lemma counted_losses_other:
  "\<forall>ev \<in> set evs. event_epoch ev \<noteq> j \<Longrightarrow> counted_losses j evs = []"
  by (induction evs) (simp_all add: counted_loss_other)

lemma counted_loss_not_call [simp]:
  "counted_loss j (EpochMsg i v) = []" "counted_loss j (FocalRebuild i) = []"
  by simp_all

lemma avg_inv_ok: "avg_inv n i s \<Longrightarrow> avg_ok s"
  unfolding avg_inv_def avg_ok_def by (metis event_epoch.simps(3))

lemma avg_inv_step:
  assumes i: "i < n" and inv: "avg_inv n i s"
    and evs: "\<forall>ev \<in> set evs. is_call_of i ug ev"
    and rest: "\<forall>ev \<in> set rest. ev = FocalRebuild i"
    and post: "epoch_post i evs rest s r s'"
  shows "(r = Inr () \<and> avg_inv n (Suc i) s') \<or> ((\<exists>e. r = Inl e) \<and> avg_ok s')"
proof -
  from inv have len: "length (procAvgLoss s) = n"
    and zero: "\<forall>j. i \<le> j \<and> j < n \<longrightarrow> procAvgLoss s ! j = Fin 0"
    and old: "\<forall>ev \<in> set (trace s). event_epoch ev < i"
    and prev: "\<forall>j < i. arith_mean (counted_losses j (trace s)) = Inr (procAvgLoss s ! j)"
    and msg: "\<forall>j v. EpochMsg j v \<in> set (trace s) \<longrightarrow> v = procAvgLoss s ! j"
    by (simp_all add: avg_inv_def)
  from evs have ep: "\<forall>ev \<in> set evs. event_epoch ev = i"
    by (blast dest: is_call_of_place)
  from evs have nomsg: "\<forall>j v. EpochMsg j v \<notin> set evs" by fastforce
  have other: "counted_losses j evs = []" if "j \<noteq> i" for j
    using ep that by (intro counted_losses_other) auto
  have other_rest: "counted_losses j rest = []" for j
    using rest by (induction rest) auto
  from old have before: "counted_losses i (trace s) = []"
    by (intro counted_losses_other) auto
  from post show ?thesis unfolding epoch_post_def
  proof (elim disjE conjE exE)
    assume r: "r = Inl ZeroDivisionError" and tr: "trace s' = trace s @ evs"
    have "avg_ok s'" unfolding avg_ok_def
    proof (intro allI impI)
      fix j v
      assume "EpochMsg j v \<in> set (trace s')"
      with tr nomsg have m: "EpochMsg j v \<in> set (trace s)" by auto
      with old have "j < i" by force
      with other [of j] tr have "counted_losses j (trace s') = counted_losses j (trace s)" by simp
      with m msg prev \<open>j < i\<close> show "arith_mean (counted_losses j (trace s')) = Inr v" by auto
    qed
    with r show ?thesis by blast
  next
    fix v
    assume dv: "fdiv_count (foldl fadd (procAvgLoss s ! i) (counted_losses i evs))
                  (length (counted_losses i evs)) = Inr v"
      and r: "r = Inr ()"
      and tr: "trace s' = trace s @ evs @ EpochMsg i v # rest"
      and pa: "procAvgLoss s' = (procAvgLoss s)[i := v]"
    from zero i have "procAvgLoss s ! i = Fin 0" by simp
    with dv have mean_i: "arith_mean (counted_losses i evs) = Inr v" by (simp add: arith_mean_def)
    have 1: "length (procAvgLoss s') = n" using pa len by simp
    have 2: "\<forall>j. Suc i \<le> j \<and> j < n \<longrightarrow> procAvgLoss s' ! j = Fin 0"
      using pa zero by auto
    have 3: "\<forall>ev \<in> set (trace s'). event_epoch ev < Suc i"
      using tr old ep rest by auto
    have 4: "\<forall>j < Suc i. arith_mean (counted_losses j (trace s')) = Inr (procAvgLoss s' ! j)"
    proof (intro allI impI)
      fix j assume "j < Suc i"
      show "arith_mean (counted_losses j (trace s')) = Inr (procAvgLoss s' ! j)"
      proof (cases "j = i")
        case True
        with tr before other_rest mean_i pa len i show ?thesis by simp
      next
        case False
        with \<open>j < Suc i\<close> have "j < i" by simp
        with tr other [OF False] other_rest prev pa False show ?thesis by simp
      qed
    qed
    have 5: "\<forall>j w. EpochMsg j w \<in> set (trace s') \<longrightarrow> w = procAvgLoss s' ! j"
    proof (intro allI impI)
      fix j w assume "EpochMsg j w \<in> set (trace s')"
      with tr nomsg rest have "EpochMsg j w \<in> set (trace s) \<or> (j = i \<and> w = v)" by auto
      then show "w = procAvgLoss s' ! j"
      proof
        assume m: "EpochMsg j w \<in> set (trace s)"
        with old have "j < i" by force
        with m msg pa show ?thesis by simp
      next
        assume "j = i \<and> w = v"
        with pa len i show ?thesis by simp
      qed
    qed
    from 1 2 3 4 5 r show ?thesis by (simp add: avg_inv_def)
  qed
qed

lemma avg_inv_start: "avg_inv n 0 (train_start n bs m)"
  by (simp add: avg_inv_def train_start_def)

lemma avg_inv_focal:
  assumes "i < n" and "avg_inv n i s" and "epoch_focal T i s = (r, s')"
  shows "(r = Inr () \<and> avg_inv n (Suc i) s') \<or> ((\<exists>e. r = Inl e) \<and> avg_ok s')"
proof -
  from assms(1,2) have "i < length (procAvgLoss s)" by (simp add: avg_inv_def)
  from epoch_focal_result [OF this assms(3)] obtain evs
    where "\<forall>ev \<in> set evs. is_call_of i (use_grad s) ev"
      and "epoch_post i evs (if i mod 5 = 0 then [FocalRebuild i] else []) s r s'" by blast
  with assms(1,2) show ?thesis
    by (intro avg_inv_step [where evs = evs and ug = "use_grad s"
          and rest = "if i mod 5 = 0 then [FocalRebuild i] else []"]) auto
qed

lemma avg_inv_plain:
  assumes "i < n" and "avg_inv n i s" and "epoch_plain T i s = (r, s')"
  shows "(r = Inr () \<and> avg_inv n (Suc i) s') \<or> ((\<exists>e. r = Inl e) \<and> avg_ok s')"
proof -
  from assms(1,2) have "i < length (procAvgLoss s)" by (simp add: avg_inv_def)
  from epoch_plain_result [OF this assms(3)] obtain evs
    where "\<forall>ev \<in> set evs. is_call_of i True ev" and "epoch_post i evs [] s r s'" by blast
  with assms(1,2) show ?thesis
    by (intro avg_inv_step [where evs = evs and ug = True and rest = "[]"]) auto
qed

lemma finish_run_vars:
  assumes "finish_run T s = (r, s')"
  shows "trace s' = trace s \<and> procAvgLoss s' = procAvgLoss s"
  using assms
  by (auto simp: finish_run_def bnd_def gets_def lift_res_def perform_ext_def modify_def ret_def
      split: sum.splits if_splits)

lemma rebuild_step:
  assumes i: "i < n" and inv: "mode_inv n i s" and run: "epoch_focal T i s = (Inr (), s')"
  shows "set (trace s) \<subseteq> set (trace s') \<and> (i mod 5 = 0 \<longrightarrow> FocalRebuild i \<in> set (trace s'))"
proof -
  from inv i have il: "i < length (procAvgLoss s)" by (simp add: mode_inv_def)
  from epoch_focal_result [OF il run] show ?thesis
    by (auto simp: epoch_post_def)
qed

lemma rebuilt_inv_step:
  assumes i: "i < n" and inv: "rebuilt_inv n i s" and run: "epoch_focal T i s = (r, s')"
  shows "(r = Inr () \<and> rebuilt_inv n (Suc i) s') \<or> ((\<exists>e. r = Inl e) \<and> mode_ok s')"
proof -
  from inv have m: "mode_inv n i s"
    and rb: "\<forall>j < i. j mod 5 = 0 \<longrightarrow> FocalRebuild j \<in> set (trace s)"
    by (simp_all add: rebuilt_inv_def)
  from mode_inv_step [OF i m run] show ?thesis
  proof
    assume a: "r = Inr () \<and> mode_inv n (Suc i) s'"
    with run have "epoch_focal T i s = (Inr (), s')" by simp
    from rebuild_step [OF i m this] rb
    have "\<forall>j < Suc i. j mod 5 = 0 \<longrightarrow> FocalRebuild j \<in> set (trace s')"
      by (auto simp: less_Suc_eq)
    with a show ?thesis by (simp add: rebuilt_inv_def)
  next
    assume "(\<exists>e. r = Inl e) \<and> mode_ok s'"
    then show ?thesis by simp
  qed
qed

lemma focal_epochs_rebuilt:
  assumes "for_each [0 ..< n] (epoch_focal T) (train_start n bs m) = (r, s')"
  shows "mode_ok s' \<and> (r = Inr () \<longrightarrow> (\<forall>j < n. j mod 5 = 0 \<longrightarrow> FocalRebuild j \<in> set (trace s')))"
proof -
  have start: "rebuilt_inv n 0 (train_start n bs m)"
    by (simp add: rebuilt_inv_def mode_inv_start)
  from for_each_upt [where a = 0 and I = "rebuilt_inv n" and E = mode_ok and body = "epoch_focal T"
      and n = n and k = 0, OF _ _ _ start assms]
  have "(r = Inr () \<and> rebuilt_inv n n s') \<or> ((\<exists>e. r = Inl e) \<and> mode_ok s')"
    by (simp add: rebuilt_inv_step)
  then show ?thesis by (auto simp: rebuilt_inv_def dest: mode_inv_ok)
qed

subsection \<open>The mode of an epoch\<close>

lemma switch_mode_exact:
  "switch_mode T i t =
     (Inr (), if i mod 5 = 0
              then t\<lparr>dataloader := fst (focal_scheme T (ext t)),
                     ext := snd (focal_scheme T (ext t)),
                     trace := trace t @ [FocalRebuild i], use_grad := True\<rparr>
              else if i mod 5 = 4 then t\<lparr>use_grad := False\<rparr> else t)"
  by (simp add: switch_mode_def update_focal_scheme_def bnd_def modify_def ret_def
      split: prod.splits)

lemma batch_loop_batches:
  "i < length (procAvgLoss s) \<Longrightarrow> for_each bs (batch_focal T i) s = (r, s') \<Longrightarrow>
     r = Inr () \<and> (\<exists>evs. batch_run i evs s s' \<and> (\<forall>ev \<in> set evs. event_epoch ev = i) \<and>
                     concat (map call_batch evs) = bs)"
proof (induction bs arbitrary: s)
  case Nil
  then have "r = Inr ()" and "s' = s" by (simp_all add: ret_def)
  with batch_run_Nil [of i s] show ?case by auto
next
  case (Cons b bs)
  from Cons.prems(2) have "bnd (batch_focal T i b) (\<lambda>u. for_each bs (batch_focal T i)) s = (r, s')"
    by simp
  then show ?case
  proof (cases rule: bnd_cases)
    case (raised e)
    with batch_focal_step [OF Cons.prems(1) raised(1)] show ?thesis by simp
  next
    case (returned u s1)
    from batch_focal_step [OF Cons.prems(1) returned(1)] obtain ev
      where st: "batch_step i ev s s1"
        and ev: "(\<exists>res. ev = SolveCall i b res) \<or> (\<exists>lf l. ev = ExecCall i b lf l)"
      by (auto split: if_splits)
    from ev have eb: "event_epoch ev = i" "call_batch ev = [b]" by auto
    from st Cons.prems(1) have "i < length (procAvgLoss s1)"
      by (simp add: batch_step_def)
    from Cons.IH [OF this returned(2)] obtain evs
      where "r = Inr ()" and rn: "batch_run i evs s1 s'"
        and evs: "\<forall>ev \<in> set evs. event_epoch ev = i" "concat (map call_batch evs) = bs"
      by blast
    with batch_run_Cons [OF Cons.prems(1) st rn] eb show ?thesis
      by (intro conjI exI [where x = "ev # evs"]) simp_all
  qed
qed

lemma epoch_focal_batches:
  assumes i: "i < length (procAvgLoss s)" and run: "epoch_focal T i s = (r, s')"
  shows "\<exists>new. trace s' = trace s @ new \<and> (\<forall>ev \<in> set new. event_epoch ev = i) \<and>
           concat (map call_batch new) = dataloader s \<and>
           (r = Inr () \<longrightarrow> length (procAvgLoss s') = length (procAvgLoss s) \<and>
              (if i mod 5 = 0 then \<exists>m0. focal_scheme T m0 = (dataloader s', ext s')
               else dataloader s' = dataloader s))"
proof -
  let ?s0 = "s\<lparr>batchCnt := 0, efficientBatchCnt := 0\<rparr>"
  let ?rest = "\<lambda>u::unit. bnd (epoch_average i) (\<lambda>u. switch_mode T i)"
  from run have "bnd (for_each (dataloader s) (batch_focal T i)) ?rest ?s0 = (r, s')"
    by (simp add: epoch_focal_def bnd_def modify_def gets_def)
  then show ?thesis
  proof (cases rule: bnd_cases)
    case (raised e)
    with batch_loop_batches [of i ?s0 "dataloader s" T "Inl e" s'] i show ?thesis by simp
  next
    case (returned u s1)
    from batch_loop_batches [of i ?s0 "dataloader s" T "Inr u" s1] i returned(1) obtain evs
      where rn: "batch_run i evs ?s0 s1"
        and ep: "\<forall>ev \<in> set evs. event_epoch ev = i"
        and bt: "concat (map call_batch evs) = dataloader s" by auto
    from rn i have i1: "i < length (procAvgLoss s1)"
      and tr: "trace s1 = trace s @ evs" and dl: "dataloader s1 = dataloader s"
      and len: "length (procAvgLoss s1) = length (procAvgLoss s)"
      by (simp_all add: batch_run_def)
    from returned(2) show ?thesis
    proof (cases rule: bnd_cases)
      case (raised e)
      with epoch_average_run [OF i1 raised(1)] tr ep bt show ?thesis
        by (intro exI [where x = evs]) auto
    next
      case (returned u2 s2)
      from epoch_average_run [OF i1 returned(1)] obtain v
        where s2: "s2 = s1\<lparr>procAvgLoss := (procAvgLoss s1)[i := v], trace := trace s1 @ [EpochMsg i v]\<rparr>"
        by auto
      from returned(2) have r: "r = Inr ()"
        and s': "s' = (if i mod 5 = 0
              then s2\<lparr>dataloader := fst (focal_scheme T (ext s2)),
                     ext := snd (focal_scheme T (ext s2)),
                     trace := trace s2 @ [FocalRebuild i], use_grad := True\<rparr>
              else if i mod 5 = 4 then s2\<lparr>use_grad := False\<rparr> else s2)"
        by (simp_all add: switch_mode_exact)
      let ?new = "evs @ EpochMsg i v # (if i mod 5 = 0 then [FocalRebuild i] else [])"
      from s' s2 tr have 1: "trace s' = trace s @ ?new" by simp
      from ep have 2: "\<forall>ev \<in> set ?new. event_epoch ev = i" by auto
      from bt have 3: "concat (map call_batch ?new) = dataloader s" by simp
      from s' s2 len have 4: "length (procAvgLoss s') = length (procAvgLoss s)" by simp
      have 5: "if i mod 5 = 0 then \<exists>m0. focal_scheme T m0 = (dataloader s', ext s')
               else dataloader s' = dataloader s"
      proof (cases "i mod 5 = 0")
        case True
        with s' have "focal_scheme T (ext s2) = (dataloader s', ext s')" by simp
        with True show ?thesis by auto
      next
        case False
        with s' s2 dl show ?thesis by simp
      qed
      from 1 2 3 4 5 show ?thesis by blast
    qed
  qed
qed

lemma epoch_batches_append:
  "epoch_batches j (xs @ ys) = epoch_batches j xs @ epoch_batches j ys"
  by (simp add: epoch_batches_def events_of_epoch_def)

lemma epoch_batches_other:
  "\<forall>ev \<in> set evs. event_epoch ev \<noteq> j \<Longrightarrow> epoch_batches j evs = []"
  by (induction evs) (simp_all add: epoch_batches_def events_of_epoch_def)

lemma epoch_batches_same:
  "\<forall>ev \<in> set evs. event_epoch ev = j \<Longrightarrow> epoch_batches j evs = concat (map call_batch evs)"
  by (induction evs) (simp_all add: epoch_batches_def events_of_epoch_def)

lemma loader_inv_start: "loader_inv T bs n 0 (train_start n bs m)"
  by (simp add: loader_inv_def train_start_def)

lemma loader_inv_step:
  assumes i: "i < n" and inv: "loader_inv T bs n i s" and run: "epoch_focal T i s = (Inr (), s')"
  shows "loader_inv T bs n (Suc i) s'"
proof -
  from inv have len: "length (procAvgLoss s) = n"
    and old: "\<forall>ev \<in> set (trace s). event_epoch ev < i"
    and first: "0 < i \<longrightarrow> epoch_batches 0 (trace s) = bs"
    and fresh: "\<forall>j < i. j mod 5 = 1 \<longrightarrow> (\<exists>m0. epoch_batches j (trace s) = fst (focal_scheme T m0))"
    and same: "\<forall>j. Suc j < i \<longrightarrow> j mod 5 \<noteq> 0 \<longrightarrow>
          epoch_batches (Suc j) (trace s) = epoch_batches j (trace s)"
    and dl0: "i = 0 \<longrightarrow> dataloader s = bs"
    and dl: "\<forall>j. i = Suc j \<longrightarrow>
          (if j mod 5 = 0 then \<exists>m0. dataloader s = fst (focal_scheme T m0)
           else dataloader s = epoch_batches j (trace s))"
    by (simp_all add: loader_inv_def)
  from i len have il: "i < length (procAvgLoss s)" by simp
  from epoch_focal_batches [OF il run] obtain new
    where tr: "trace s' = trace s @ new" and ep: "\<forall>ev \<in> set new. event_epoch ev = i"
      and bt: "concat (map call_batch new) = dataloader s"
      and len': "length (procAvgLoss s') = length (procAvgLoss s)"
      and nx: "if i mod 5 = 0 then \<exists>m0. focal_scheme T m0 = (dataloader s', ext s')
               else dataloader s' = dataloader s"
    by auto
  have before: "epoch_batches j (trace s') = epoch_batches j (trace s)" if "j < i" for j
  proof -
    from ep that have "\<forall>ev \<in> set new. event_epoch ev \<noteq> j" by auto
    then have "epoch_batches j new = []" by (rule epoch_batches_other)
    with tr show ?thesis by (simp add: epoch_batches_append)
  qed
  have now: "epoch_batches i (trace s') = dataloader s"
  proof -
    from old have "\<forall>ev \<in> set (trace s). event_epoch ev \<noteq> i" by auto
    then have "epoch_batches i (trace s) = []" by (rule epoch_batches_other)
    with tr bt epoch_batches_same [OF ep] show ?thesis by (simp add: epoch_batches_append)
  qed
  have 1: "length (procAvgLoss s') = n" using len len' by simp
  have 2: "\<forall>ev \<in> set (trace s'). event_epoch ev < Suc i"
    using tr old ep by (auto simp: less_Suc_eq)
  have 3: "epoch_batches 0 (trace s') = bs"
  proof (cases "i = 0")
    case True
    with now dl0 show ?thesis by simp
  next
    case False
    with before [of 0] first show ?thesis by simp
  qed
  have 4: "\<exists>m0. epoch_batches j (trace s') = fst (focal_scheme T m0)"
    if "j < Suc i" "j mod 5 = 1" for j
  proof (cases "j = i")
    case True
    with that obtain k where k: "i = Suc k" by (cases i) auto
    with True that have "k mod 5 = 0" by (simp add: mod_Suc split: if_splits)
    with dl k obtain m0 where "dataloader s = fst (focal_scheme T m0)" by auto
    with now True show ?thesis by auto
  next
    case False
    with that have "j < i" by simp
    with before [OF this] fresh that show ?thesis by simp
  qed
  have 5: "epoch_batches (Suc j) (trace s') = epoch_batches j (trace s')"
    if "Suc j < Suc i" "j mod 5 \<noteq> 0" for j
  proof (cases "Suc j = i")
    case True
    with dl that have "dataloader s = epoch_batches j (trace s)" by auto
    moreover from True have "j < i" by simp
    ultimately show ?thesis using now before [of j] True by simp
  next
    case False
    with that have "Suc j < i" "j < i" by simp_all
    with before [of "Suc j"] before [of j] same that show ?thesis by simp
  qed
  have 6: "if i mod 5 = 0 then \<exists>m0. dataloader s' = fst (focal_scheme T m0)
           else dataloader s' = epoch_batches i (trace s')"
  proof (cases "i mod 5 = 0")
    case True
    with nx obtain m0 where "focal_scheme T m0 = (dataloader s', ext s')" by auto
    then have "dataloader s' = fst (focal_scheme T m0)" by simp
    with True show ?thesis by auto
  next
    case False
    with nx now show ?thesis by simp
  qed
  from 1 2 3 4 5 6 show ?thesis by (simp add: loader_inv_def)
qed

lemma focal_epochs_batches:
  assumes "for_each [0 ..< n] (epoch_focal T) (train_start n bs m) = (Inr (), s')"
  shows "loader_inv T bs n n s'"
proof -
  have step: "(r = Inr () \<and> loader_inv T bs n (Suc i) t') \<or> ((\<exists>err. r = Inl err) \<and> True)"
    if "(0::nat) \<le> i" "i < n" "loader_inv T bs n i t" "epoch_focal T i t = (r, t')" for i t r t'
  proof (cases r)
    case (Inr u)
    with that loader_inv_step [of i n T bs t t'] show ?thesis by simp
  qed simp
  have "((Inr () :: py_error + unit) = Inr () \<and> loader_inv T bs n n s') \<or>
      ((\<exists>err. (Inr () :: py_error + unit) = Inl err) \<and> True)"
    by (rule for_each_upt [where a = 0 and I = "loader_inv T bs n" and E = "\<lambda>t. True"
      and body = "epoch_focal T" and n = n and k = 0, OF step _ _ loader_inv_start assms])
      simp_all
  then show ?thesis by simp
qed

text \<open>
  C1, as the code has it. In every run of \<^verbatim>\<open>learn_latent_focal\<close>, to its end or to
  the exception that stops it: the batches of an epoch \<open>i\<close> are processed by
  \<^verbatim>\<open>exec_multistep\<close> (evaluation mode) when \<open>i mod 5 = 0\<close> and by
  \<^verbatim>\<open>solve_multistep\<close> (gradient mode) otherwise; the dataloader is rebuilt only in an
  epoch with \<open>i mod 5 = 0\<close>, after that epoch's batches and its message and before the
  batches of epoch \<open>i + 1\<close>, and in a run that returns it is rebuilt in every such
  epoch. In a run that returns, epoch 0 processes the batches of the first dataloader,
  an epoch after a rebuild those of a focal subset that \<^verbatim>\<open>_update_focal_scheme\<close>
  returned, and every other epoch the batches of the epoch before it. An epoch
  processes the batches of the dataloader it starts with, in order; when it returns,
  the dataloader and the outside state are what one call of \<^verbatim>\<open>_update_focal_scheme\<close>
  returned if \<open>i mod 5 = 0\<close>, and the dataloader is unchanged otherwise. The end of
  epoch \<open>i\<close> is \<open>switch_mode\<close>: when \<open>i mod 5 = 0\<close> the dataloader becomes the subset
  resampled from the outside state as it is then and gradient mode is set, when
  \<open>i mod 5 = 4\<close> evaluation mode is set, and otherwise nothing changes.
\<close>

theorem focal_mode_schedule:
  "(learn_latent_focal T bs m = (r, s) \<longrightarrow>
      (\<forall>ev \<in> set (trace s). event_in_mode ev) \<and> sorted (map event_place (trace s)) \<and>
      (r = Inr () \<longrightarrow> (\<forall>i < 20. i mod 5 = 0 \<longrightarrow> FocalRebuild i \<in> set (trace s))) \<and>
      (r = Inr () \<longrightarrow>
         epoch_batches 0 (trace s) = bs \<and>
         (\<forall>i < 20. i mod 5 = 1 \<longrightarrow> (\<exists>m0. epoch_batches i (trace s) = fst (focal_scheme T m0))) \<and>
         (\<forall>i < 19. i mod 5 \<noteq> 0 \<longrightarrow> epoch_batches (Suc i) (trace s) = epoch_batches i (trace s))))
   \<and> (i < length (procAvgLoss t) \<longrightarrow> epoch_focal T i t = (r', t') \<longrightarrow>
        epoch_batches i (drop (length (trace t)) (trace t')) = dataloader t \<and>
        (r' = Inr () \<longrightarrow>
           (if i mod 5 = 0 then \<exists>m0. focal_scheme T m0 = (dataloader t', ext t')
            else dataloader t' = dataloader t)))
   \<and> switch_mode T i t =
        (Inr (), if i mod 5 = 0
                 then t\<lparr>dataloader := fst (focal_scheme T (ext t)),
                        ext := snd (focal_scheme T (ext t)),
                        trace := trace t @ [FocalRebuild i], use_grad := True\<rparr>
                 else if i mod 5 = 4 then t\<lparr>use_grad := False\<rparr> else t)
   \<and> use_grad (snd (switch_mode T i t)) = (i mod 5 = 0 \<or> (i mod 5 \<noteq> 4 \<and> use_grad t))"
proof (intro conjI impI)
  assume run: "learn_latent_focal T bs m = (r, s)"
  from run [unfolded learn_latent_focal_def]
  have "mode_ok s \<and> (r = Inr () \<longrightarrow> (\<forall>i < 20. i mod 5 = 0 \<longrightarrow> FocalRebuild i \<in> set (trace s)))"
  proof (cases rule: bnd_cases)
    case (raised e)
    from focal_epochs_rebuilt [OF raised(1)] raised(2) show ?thesis by simp
  next
    case (returned u s1)
    from focal_epochs_rebuilt [OF returned(1)] finish_run_vars [OF returned(2)]
    show ?thesis by (simp add: mode_ok_def)
  qed
  then show "\<forall>ev \<in> set (trace s). event_in_mode ev" and "sorted (map event_place (trace s))"
    and "r = Inr () \<Longrightarrow> \<forall>i < 20. i mod 5 = 0 \<longrightarrow> FocalRebuild i \<in> set (trace s)"
    by (simp_all add: mode_ok_def)
  assume ok: "r = Inr ()"
  from run [unfolded learn_latent_focal_def]
  obtain s1 where inv: "loader_inv T bs 20 20 s1" and tr: "trace s = trace s1"
  proof (cases rule: bnd_cases)
    case (raised e)
    with ok show ?thesis by simp
  next
    case (returned u s1)
    from returned(1) have "for_each [0 ..< 20] (epoch_focal T) (train_start 20 bs m) = (Inr (), s1)"
      by simp
    from focal_epochs_batches [OF this] finish_run_vars [OF returned(2)] that
    show ?thesis by simp
  qed
  from inv tr show "epoch_batches 0 (trace s) = bs"
    by (simp add: loader_inv_def)
  from inv tr
  show "\<forall>i < 20. i mod 5 = 1 \<longrightarrow> (\<exists>m0. epoch_batches i (trace s) = fst (focal_scheme T m0))"
    by (simp add: loader_inv_def)
  from inv have "\<forall>j. Suc j < 20 \<longrightarrow> j mod 5 \<noteq> 0 \<longrightarrow>
      epoch_batches (Suc j) (trace s1) = epoch_batches j (trace s1)"
    unfolding loader_inv_def by blast
  with tr
  show "\<forall>i < 19. i mod 5 \<noteq> 0 \<longrightarrow> epoch_batches (Suc i) (trace s) = epoch_batches i (trace s)"
    by simp
next
  assume il: "i < length (procAvgLoss t)" and run: "epoch_focal T i t = (r', t')"
  from epoch_focal_batches [OF il run] obtain new
    where tr: "trace t' = trace t @ new" and ep: "\<forall>ev \<in> set new. event_epoch ev = i"
      and bt: "concat (map call_batch new) = dataloader t"
      and nx: "r' = Inr () \<longrightarrow>
           (if i mod 5 = 0 then \<exists>m0. focal_scheme T m0 = (dataloader t', ext t')
            else dataloader t' = dataloader t)"
    by auto
  from tr bt epoch_batches_same [OF ep]
  show "epoch_batches i (drop (length (trace t)) (trace t')) = dataloader t" by simp
  assume "r' = Inr ()"
  with nx show "if i mod 5 = 0 then \<exists>m0. focal_scheme T m0 = (dataloader t', ext t')
            else dataloader t' = dataloader t" by simp
next
  show "switch_mode T i t =
        (Inr (), if i mod 5 = 0
                 then t\<lparr>dataloader := fst (focal_scheme T (ext t)),
                        ext := snd (focal_scheme T (ext t)),
                        trace := trace t @ [FocalRebuild i], use_grad := True\<rparr>
                 else if i mod 5 = 4 then t\<lparr>use_grad := False\<rparr> else t)"
    by (rule switch_mode_exact)
next
  obtain r1 s1 where sm: "switch_mode T i t = (r1, s1)" by (cases "switch_mode T i t")
  from switch_mode_run [OF sm] sm
  show "use_grad (snd (switch_mode T i t)) = (i mod 5 = 0 \<or> (i mod 5 \<noteq> 4 \<and> use_grad t))"
    by simp
qed

theorem focal_mode_schedule_witness:
  "fst (learn_latent_focal demo_trainer [4, 6] 0) = Inr ()
   \<and> sorted (map event_place (trace (snd (learn_latent_focal demo_trainer [4, 6] 0))))
   \<and> FocalRebuild 15 \<in> set (trace (snd (learn_latent_focal demo_trainer [4, 6] 0)))
   \<and> event_in_mode (ExecCall 0 (4::nat) (Fin 0) (Fin 4))
   \<and> use_grad (snd (switch_mode demo_trainer 4 ((train_start 20 [4, 6] 0)\<lparr>use_grad := True\<rparr>)))
       = False
   \<and> epoch_batches 0 (trace (snd (learn_latent_focal demo_resampler [4, 6] 0))) = [4, 6]
   \<and> epoch_batches 1 (trace (snd (learn_latent_focal demo_resampler [4, 6] 0))) = [5]
   \<and> epoch_batches 5 (trace (snd (learn_latent_focal demo_resampler [4, 6] 0))) = [5]
   \<and> epoch_batches 6 (trace (snd (learn_latent_focal demo_resampler [4, 6] 0))) = [15]
   \<and> epoch_batches 5 (trace (snd (epoch_focal demo_resampler 5 (train_start 20 [8] 3)))) = [8]
   \<and> dataloader (snd (epoch_focal demo_resampler 5 (train_start 20 [8] 3))) = [9]
   \<and> dataloader (snd (switch_mode demo_resampler 5 (train_start 20 [8] 3))) = [7]"
proof -
  let ?run = "learn_latent_focal demo_trainer [4, 6] 0"
  let ?rs = "learn_latent_focal demo_resampler [4, 6] 0"
  let ?t = "train_start 20 [8::nat] (3::nat)"
  let ?ep = "epoch_focal demo_resampler 5 ?t"
  have r: "fst ?run = Inr ()" by code_simp
  have e: "ExecCall 0 4 (Fin 0) (Fin 4) \<in> set (trace (snd ?run))" by code_simp
  from focal_mode_schedule [of demo_trainer "[4, 6]" 0 "fst ?run" "snd ?run" 4
      "(train_start 20 [4, 6] 0)\<lparr>use_grad := True\<rparr>"]
  have a: "\<forall>ev \<in> set (trace (snd ?run)). event_in_mode ev"
    and b: "sorted (map event_place (trace (snd ?run)))"
    and c: "fst ?run = Inr () \<longrightarrow> (\<forall>i < 20. i mod 5 = 0 \<longrightarrow> FocalRebuild i \<in> set (trace (snd ?run)))"
    and d: "use_grad (snd (switch_mode demo_trainer 4 ((train_start 20 [4, 6] 0)\<lparr>use_grad := True\<rparr>)))
       = False"
    by (simp_all add: train_start_def)
  from c r have 1: "FocalRebuild 15 \<in> set (trace (snd ?run))" by simp
  from a e have 2: "event_in_mode (ExecCall 0 (4::nat) (Fin 0) (Fin 4))" by blast
  have rs: "fst ?rs = Inr ()" by code_simp
  have b1: "epoch_batches 1 (trace (snd ?rs)) = [5]" by code_simp
  have b6: "epoch_batches 6 (trace (snd ?rs)) = [15]" by code_simp
  have "?rs = (fst ?rs, snd ?rs)" by simp
  from focal_mode_schedule [THEN conjunct1, THEN mp, OF this] rs
  have b0: "epoch_batches 0 (trace (snd ?rs)) = [4, 6]"
    and same: "\<forall>i < 19. i mod 5 \<noteq> 0 \<longrightarrow>
        epoch_batches (Suc i) (trace (snd ?rs)) = epoch_batches i (trace (snd ?rs))"
    by simp_all
  have next_same: "epoch_batches (Suc i) (trace (snd ?rs)) = epoch_batches i (trace (snd ?rs))"
    if "i < 19" "i mod 5 \<noteq> 0" for i
    using same that by blast
  have b4: "epoch_batches 4 (trace (snd ?rs)) = [5]" by code_simp
  have "epoch_batches (Suc 4) (trace (snd ?rs)) = epoch_batches 4 (trace (snd ?rs))"
    by (rule next_same) simp_all
  with b4 have b5: "epoch_batches 5 (trace (snd ?rs)) = [5]" by simp
  have il: "5 < length (procAvgLoss ?t)" by (simp add: train_start_def)
  have "?ep = (fst ?ep, snd ?ep)" by simp
  from focal_mode_schedule [THEN conjunct2, THEN conjunct1, THEN mp, THEN mp, OF il this]
  have e5: "epoch_batches 5 (trace (snd ?ep)) = [8]" by (simp add: train_start_def)
  have d5: "dataloader (snd ?ep) = [9]" by code_simp
  from focal_mode_schedule [THEN conjunct2, THEN conjunct2, THEN conjunct1,
      of demo_resampler 5 ?t]
  have s5: "dataloader (snd (switch_mode demo_resampler 5 ?t)) = [7]"
    by (simp add: demo_resampler_def train_start_def)
  from r b 1 2 d b0 b1 b5 b6 e5 d5 s5 show ?thesis by simp
qed

text \<open>
  C1 as stated, with gradient mode and the rebuild before the batches of an epoch with
  \<open>i mod 5 = 0\<close> and evaluation mode in an epoch with \<open>i mod 5 = 4\<close>, fails: in this
  run epoch 0 calls \<^verbatim>\<open>exec_multistep\<close> on both batches of the first dataloader and
  rebuilds the dataloader after them, and epoch 4 calls \<^verbatim>\<open>solve_multistep\<close>.
\<close>

theorem focal_mode_claim_counterexample:
  "events_of_epoch 0 (trace (snd (learn_latent_focal demo_trainer [4, 6] 0)))
     = [ExecCall 0 4 (Fin 0) (Fin 4), ExecCall 0 6 (Fin 0) (Fin 6), EpochMsg 0 (Fin 5),
        FocalRebuild 0]
   \<and> events_of_epoch 4 (trace (snd (learn_latent_focal demo_trainer [4, 6] 0)))
     = [SolveCall 4 1 (Some (Scalar (Fin 0)), Some (Scalar (Fin 0)), Fin 0, Fin 1),
        SolveCall 4 2 (None, None, Fin 0, Fin 2),
        SolveCall 4 3 (Some (Scalar (Fin 0)), Some (Scalar (Fin 0)), Fin 0, Fin 3),
        EpochMsg 4 (Fin 2)]"
  by code_simp

subsection \<open>The average of an epoch\<close>

lemma epochs_avg:
  assumes step: "\<And>i s r s'. i < n \<Longrightarrow> avg_inv n i s \<Longrightarrow> body i s = (r, s') \<Longrightarrow>
      (r = Inr () \<and> avg_inv n (Suc i) s') \<or> ((\<exists>e. r = Inl e) \<and> avg_ok s')"
    and run: "bnd (for_each [0 ..< n] body) (\<lambda>u. finish_run T) (train_start n bs m) = (r, s)"
  shows "(\<forall>i v. EpochMsg i v \<in> set (trace s) \<longrightarrow> arith_mean (counted_losses i (trace s)) = Inr v)
      \<and> (r = Inr () \<longrightarrow> (\<forall>i < n. arith_mean (counted_losses i (trace s)) = Inr (procAvgLoss s ! i)))"
proof -
  have loop: "(r1 = Inr () \<and> avg_inv n n s1) \<or> ((\<exists>e. r1 = Inl e) \<and> avg_ok s1)"
    if "for_each [0 ..< n] body (train_start n bs m) = (r1, s1)" for r1 s1
    using for_each_upt [where a = 0 and I = "avg_inv n" and E = avg_ok and body = body
        and n = n and k = 0, OF _ _ _ avg_inv_start that]
    by (simp add: step)
  from run show ?thesis
  proof (cases rule: bnd_cases)
    case (raised e)
    with loop [OF raised(1)] show ?thesis by (simp add: avg_ok_def)
  next
    case (returned u s1)
    with loop [OF returned(1)] have inv: "avg_inv n n s1" by simp
    from finish_run_vars [OF returned(2)]
    have eq: "trace s = trace s1" "procAvgLoss s = procAvgLoss s1" by simp_all
    from avg_inv_ok [OF inv] have "avg_ok s1" .
    with inv eq show ?thesis by (simp add: avg_ok_def avg_inv_def)
  qed
qed


lemma counted_loss_split: "counted_loss i ev = usable_loss i ev @ exec_loss i ev"
  by (induction i ev rule: counted_loss.induct) simp_all

lemma counted_in_mode:
  assumes "\<forall>ev \<in> set tr. event_in_mode ev"
  shows "counted_losses i tr = (if i mod 5 = 0 then exec_losses i tr else usable_losses i tr)"
  using assms
proof (induction tr)
  case Nil
  show ?case by (simp add: exec_losses_def usable_losses_def)
next
  case (Cons ev tr)
  from Cons.prems have m: "event_in_mode ev" by simp
  have "usable_loss i ev = []" if "i mod 5 = 0"
    using m that by (induction i ev rule: usable_loss.induct) auto
  moreover have "exec_loss i ev = []" if "i mod 5 \<noteq> 0"
    using m that by (cases ev) auto
  ultimately have "counted_loss i ev = (if i mod 5 = 0 then exec_loss i ev else usable_loss i ev)"
    by (simp add: counted_loss_split)
  with Cons show ?case by (simp add: exec_losses_def usable_losses_def)
qed

lemma counted_without_exec:
  assumes "\<forall>j b lf l. ExecCall j b lf l \<notin> set tr"
  shows "counted_losses i tr = usable_losses i tr"
  using assms
proof (induction tr)
  case Nil
  show ?case by (simp add: usable_losses_def)
next
  case (Cons ev tr)
  from Cons.prems have "exec_loss i ev = []" by (cases ev) auto
  then have "counted_loss i ev = usable_loss i ev" by (simp add: counted_loss_split)
  with Cons show ?case by (simp add: usable_losses_def)
qed

lemma plain_epoch_calls:
  assumes i: "i < n" and len: "length (procAvgLoss s) = n"
    and old: "\<forall>j b lf l. ExecCall j b lf l \<notin> set (trace s)"
    and run: "epoch_plain T i s = (r, s')"
  shows "(\<forall>j b lf l. ExecCall j b lf l \<notin> set (trace s')) \<and>
         (r = Inr () \<longrightarrow> length (procAvgLoss s') = n)"
proof -
  from i len have "i < length (procAvgLoss s)" by simp
  from epoch_plain_result [OF this run] obtain evs
    where evs: "\<forall>ev \<in> set evs. is_call_of i True ev" and post: "epoch_post i evs [] s r s'"
    by blast
  from evs have ne: "\<forall>j b lf l. ExecCall j b lf l \<notin> set evs" by fastforce
  from post show ?thesis unfolding epoch_post_def
  proof (elim disjE conjE exE)
    assume "trace s' = trace s @ evs" and "r = Inl ZeroDivisionError"
    with old ne show ?thesis by simp
  next
    fix v
    assume "trace s' = trace s @ evs @ [EpochMsg i v]"
      and "procAvgLoss s' = (procAvgLoss s)[i := v]"
    with old ne len show ?thesis by simp
  qed
qed

lemma learn_latent_calls:
  assumes "learn_latent T bs m = (r, s)"
  shows "\<forall>j b lf l. ExecCall j b lf l \<notin> set (trace s)"
proof -
  let ?I = "\<lambda>(i::nat) t. length (procAvgLoss t) = 5 \<and> (\<forall>j b lf l. ExecCall j b lf l \<notin> set (trace t))"
  let ?E = "\<lambda>t. \<forall>j b lf l. ExecCall j b lf l \<notin> set (trace t)"
  have step: "(r1 = Inr () \<and> ?I (Suc i) t') \<or> ((\<exists>e. r1 = Inl e) \<and> ?E t')"
    if "(0::nat) \<le> i" "i < 5" "?I i t" "epoch_plain T i t = (r1, t')" for i t r1 t'
  proof -
    from that have "(\<forall>j b lf l. ExecCall j b lf l \<notin> set (trace t')) \<and>
         (r1 = Inr () \<longrightarrow> length (procAvgLoss t') = 5)"
      by (intro plain_epoch_calls [where i = i and s = t and T = T]) simp_all
    then show ?thesis by (cases r1) simp_all
  qed
  have start: "?I 0 (train_start 5 bs m)" by (simp add: train_start_def)
  have loop: "?E t" if "for_each [0 ..< 5] (epoch_plain T) (train_start 5 bs m) = (r1, t)" for r1 t
  proof -
    have "(r1 = Inr () \<and> ?I 5 t) \<or> ((\<exists>e. r1 = Inl e) \<and> ?E t)"
      by (rule for_each_upt [where a = 0 and I = ?I and E = ?E and body = "epoch_plain T"
            and n = 5 and k = 0, OF step _ _ start that]) simp_all
    then show ?thesis by blast
  qed
  from assms [unfolded learn_latent_def] show ?thesis
  proof (cases rule: bnd_cases)
    case (raised e)
    from loop [OF raised(1)] show ?thesis .
  next
    case (returned u s1)
    from loop [OF returned(1)] finish_run_vars [OF returned(2)] show ?thesis by simp
  qed
qed

lemma learn_latent_focal_modes:
  assumes "learn_latent_focal T bs m = (r, s)"
  shows "\<forall>ev \<in> set (trace s). event_in_mode ev"
  using assms [unfolded learn_latent_focal_def]
proof (cases rule: bnd_cases)
  case (raised e)
  from focal_epochs_rebuilt [OF raised(1)] show ?thesis by (simp add: mode_ok_def)
next
  case (returned u s1)
  from focal_epochs_rebuilt [OF returned(1)] finish_run_vars [OF returned(2)]
  show ?thesis by (simp add: mode_ok_def)
qed

text \<open>
  C4, amended. In every run of \<^verbatim>\<open>learn_latent_focal\<close> and of \<^verbatim>\<open>learn_latent\<close>, the
  value \<^verbatim>\<open>procAvgLoss[i] / efficientBatchCnt\<close> that the end of epoch \<open>i\<close> stores and
  prints is the arithmetic mean of the losses the epoch counted. In \<^verbatim>\<open>learn_latent\<close>
  and in the gradient epochs of the focal loop (\<open>i mod 5 \<noteq> 0\<close>) these are the losses of
  exactly the batches whose \<^verbatim>\<open>solve_multistep\<close> call returned a state and a gradient
  that are both not None: a batch skipped for NaN adds nothing to the sum and nothing to
  the count. In the evaluation epochs of the focal loop (\<open>i mod 5 = 0\<close>) they are the
  losses of all batches, as \<^verbatim>\<open>exec_multistep\<close> returned them. In a run that returns
  this holds of every epoch and of the final \<^verbatim>\<open>procAvgLoss\<close>.
\<close>

theorem epoch_average_is_mean:
  "(learn_latent_focal T bs m = (r, s) \<longrightarrow>
      (\<forall>i v. EpochMsg i v \<in> set (trace s) \<longrightarrow> arith_mean (counted_losses i (trace s)) = Inr v) \<and>
      (r = Inr () \<longrightarrow> (\<forall>i < 20. arith_mean (counted_losses i (trace s)) = Inr (procAvgLoss s ! i))) \<and>
      (\<forall>i. counted_losses i (trace s)
            = (if i mod 5 = 0 then exec_losses i (trace s) else usable_losses i (trace s))))
   \<and> (learn_latent T bs m = (r', s') \<longrightarrow>
      (\<forall>i v. EpochMsg i v \<in> set (trace s') \<longrightarrow> arith_mean (counted_losses i (trace s')) = Inr v) \<and>
      (r' = Inr () \<longrightarrow> (\<forall>i < 5. arith_mean (counted_losses i (trace s')) = Inr (procAvgLoss s' ! i))) \<and>
      (\<forall>i. counted_losses i (trace s') = usable_losses i (trace s')))"
proof (intro conjI impI)
  assume lf: "learn_latent_focal T bs m = (r, s)"
  then have run: "bnd (for_each [0 ..< 20] (epoch_focal T)) (\<lambda>u. finish_run T) (train_start 20 bs m) = (r, s)"
    by (simp add: learn_latent_focal_def)
  from epochs_avg [where body = "epoch_focal T", OF avg_inv_focal run]
  show "\<forall>i v. EpochMsg i v \<in> set (trace s) \<longrightarrow> arith_mean (counted_losses i (trace s)) = Inr v"
    and "r = Inr () \<Longrightarrow> \<forall>i < 20. arith_mean (counted_losses i (trace s)) = Inr (procAvgLoss s ! i)"
    by simp_all
  from learn_latent_focal_modes [OF lf]
  show "\<forall>i. counted_losses i (trace s)
            = (if i mod 5 = 0 then exec_losses i (trace s) else usable_losses i (trace s))"
    using counted_in_mode [of "trace s"] by blast
next
  assume ll: "learn_latent T bs m = (r', s')"
  then have run: "bnd (for_each [0 ..< 5] (epoch_plain T)) (\<lambda>u. finish_run T) (train_start 5 bs m) = (r', s')"
    by (simp add: learn_latent_def)
  from epochs_avg [where body = "epoch_plain T", OF avg_inv_plain run]
  show "\<forall>i v. EpochMsg i v \<in> set (trace s') \<longrightarrow> arith_mean (counted_losses i (trace s')) = Inr v"
    and "r' = Inr () \<Longrightarrow> \<forall>i < 5. arith_mean (counted_losses i (trace s')) = Inr (procAvgLoss s' ! i)"
    by simp_all
  from learn_latent_calls [OF ll]
  show "\<forall>i. counted_losses i (trace s') = usable_losses i (trace s')"
    using counted_without_exec [of "trace s'"] by blast
qed

theorem epoch_average_is_mean_witness:
  "fst (learn_latent_focal demo_trainer [4, 6] 0) = Inr ()
   \<and> usable_losses 4 (trace (snd (learn_latent_focal demo_trainer [4, 6] 0))) = [Fin 1, Fin 3]
   \<and> arith_mean (usable_losses 4 (trace (snd (learn_latent_focal demo_trainer [4, 6] 0))))
       = Inr (Fin 2)
   \<and> procAvgLoss (snd (learn_latent_focal demo_trainer [4, 6] 0)) ! 4 = Fin 2
   \<and> exec_losses 0 (trace (snd (learn_latent_focal demo_trainer [4, 6] 0))) = [Fin 4, Fin 6]
   \<and> arith_mean (exec_losses 0 (trace (snd (learn_latent_focal demo_trainer [4, 6] 0))))
       = Inr (Fin 5)
   \<and> arith_mean (usable_losses 0 (trace (snd (learn_latent demo_trainer [1, 2, 3] 0))))
       = Inr (Fin 2)"
proof -
  let ?run = "learn_latent_focal demo_trainer [4, 6] 0"
  let ?pl = "learn_latent demo_trainer [1, 2, 3] 0"
  have r: "fst ?run = Inr ()" by code_simp
  have c: "usable_losses 4 (trace (snd ?run)) = [Fin 1, Fin 3]" by code_simp
  have e: "exec_losses 0 (trace (snd ?run)) = [Fin 4, Fin 6]" by code_simp
  have p: "procAvgLoss (snd ?run) ! 4 = Fin 2" "procAvgLoss (snd ?run) ! 0 = Fin 5" by code_simp+
  have m: "EpochMsg 0 (Fin 2) \<in> set (trace (snd ?pl))" by code_simp
  have "?run = (fst ?run, snd ?run)" by simp
  note A = epoch_average_is_mean [THEN conjunct1, THEN mp, OF this]
  from A r
  have a: "\<forall>i < 20. arith_mean (counted_losses i (trace (snd ?run))) = Inr (procAvgLoss (snd ?run) ! i)"
    by blast
  from A
  have a': "\<forall>i. counted_losses i (trace (snd ?run))
            = (if i mod 5 = 0 then exec_losses i (trace (snd ?run))
               else usable_losses i (trace (snd ?run)))"
    by blast
  have "?pl = (fst ?pl, snd ?pl)" by simp
  note B = epoch_average_is_mean [THEN conjunct2, THEN mp, OF this]
  from B
  have b: "\<forall>i v. EpochMsg i v \<in> set (trace (snd ?pl)) \<longrightarrow>
              arith_mean (counted_losses i (trace (snd ?pl))) = Inr v"
    by blast
  from B
  have b': "\<forall>i. counted_losses i (trace (snd ?pl)) = usable_losses i (trace (snd ?pl))"
    by blast
  from a [rule_format, of 4] a' [rule_format, of 4] p
  have 1: "arith_mean (usable_losses 4 (trace (snd ?run))) = Inr (Fin 2)" by simp
  from a [rule_format, of 0] a' [rule_format, of 0] p
  have 2: "arith_mean (exec_losses 0 (trace (snd ?run))) = Inr (Fin 5)" by simp
  from b m have "arith_mean (counted_losses 0 (trace (snd ?pl))) = Inr (Fin 2)" by blast
  with b' [rule_format, of 0]
  have 3: "arith_mean (usable_losses 0 (trace (snd ?pl))) = Inr (Fin 2)" by simp
  from 1 2 3 r c e p show ?thesis by simp
qed

text \<open>
  C4 as stated, with the mean over the batches that produced a usable state and
  gradient in every epoch, fails in an evaluation epoch: epoch 0 of this run has no such
  batch, and its average is the mean 5 of the two \<^verbatim>\<open>exec_multistep\<close> losses.
\<close>

theorem epoch_average_claim_counterexample:
  "events_of_epoch 0 (trace (snd (learn_latent_focal demo_trainer [4, 6] 0)))
     = [ExecCall 0 4 (Fin 0) (Fin 4), ExecCall 0 6 (Fin 0) (Fin 6), EpochMsg 0 (Fin 5),
        FocalRebuild 0]
   \<and> usable_losses 0 (trace (snd (learn_latent_focal demo_trainer [4, 6] 0))) = []
   \<and> arith_mean (usable_losses 0 (trace (snd (learn_latent_focal demo_trainer [4, 6] 0))))
       = Inl ZeroDivisionError
   \<and> procAvgLoss (snd (learn_latent_focal demo_trainer [4, 6] 0)) ! 0 = Fin 5"
  by code_simp

subsection \<open>An epoch without a usable batch\<close>

lemma sentinel_not_counted:
  "\<forall>ev \<in> set evs. is_call_of i True ev \<and> returned_sentinel ev \<Longrightarrow> counted_losses i evs = []"
proof (induction evs)
  case Nil
  show ?case by simp
next
  case (Cons ev evs)
  then have "is_call_of i True ev" and "returned_sentinel ev" by simp_all
  then have "counted_loss i ev = []"
    by (cases ev) auto
  with Cons show ?case by simp
qed

lemma all_sentinel_raises:
  assumes evs: "\<forall>ev \<in> set evs. is_call_of i True ev"
    and post: "epoch_post i evs rest s r s'"
    and sen: "\<forall>ev \<in> set (drop (length (trace s)) (trace s')). returned_sentinel ev"
  shows "r = Inl ZeroDivisionError \<and> efficientBatchCnt s' = 0"
  using post unfolding epoch_post_def
proof (elim disjE conjE exE)
  assume "r = Inl ZeroDivisionError" "efficientBatchCnt s' = 0"
  then show ?thesis by simp
next
  fix v
  assume dv: "fdiv_count (foldl fadd (procAvgLoss s ! i) (counted_losses i evs))
                (length (counted_losses i evs)) = Inr v"
    and tr: "trace s' = trace s @ evs @ EpochMsg i v # rest"
  from tr sen have "\<forall>ev \<in> set evs. returned_sentinel ev" by simp
  with evs have "counted_losses i evs = []" by (intro sentinel_not_counted) simp
  with dv show ?thesis by simp
qed

text \<open>
  C10. If in a gradient-mode epoch of \<^verbatim>\<open>learn_latent_focal\<close>, or in an epoch of
  \<^verbatim>\<open>learn_latent\<close>, every \<^verbatim>\<open>solve_multistep\<close> call returns the NaN sentinel
  \<open>(None, None, ...)\<close>, then \<^verbatim>\<open>efficientBatchCnt\<close> is 0 at the end of the epoch and
  \<^verbatim>\<open>procAvgLoss[i] /= efficientBatchCnt\<close> raises ZeroDivisionError.
\<close>

theorem all_nan_epoch_divides_by_zero:
  "(i < length (procAvgLoss s) \<longrightarrow> use_grad s \<longrightarrow> epoch_focal T i s = (r, s') \<longrightarrow>
      (\<forall>ev \<in> set (drop (length (trace s)) (trace s')). returned_sentinel ev) \<longrightarrow>
      r = Inl ZeroDivisionError \<and> efficientBatchCnt s' = 0)
   \<and> (i < length (procAvgLoss s) \<longrightarrow> epoch_plain T i s = (r, s') \<longrightarrow>
      (\<forall>ev \<in> set (drop (length (trace s)) (trace s')). returned_sentinel ev) \<longrightarrow>
      r = Inl ZeroDivisionError \<and> efficientBatchCnt s' = 0)"
proof (intro conjI impI)
  assume i: "i < length (procAvgLoss s)" and ug: "use_grad s"
    and run: "epoch_focal T i s = (r, s')"
    and sen: "\<forall>ev \<in> set (drop (length (trace s)) (trace s')). returned_sentinel ev"
  from epoch_focal_result [OF i run] ug obtain evs
    where "\<forall>ev \<in> set evs. is_call_of i True ev"
      and "epoch_post i evs (if i mod 5 = 0 then [FocalRebuild i] else []) s r s'" by auto
  from all_sentinel_raises [OF this sen]
  show "r = Inl ZeroDivisionError" and "efficientBatchCnt s' = 0" by simp_all
next
  assume i: "i < length (procAvgLoss s)" and run: "epoch_plain T i s = (r, s')"
    and sen: "\<forall>ev \<in> set (drop (length (trace s)) (trace s')). returned_sentinel ev"
  from epoch_plain_result [OF i run] obtain evs
    where "\<forall>ev \<in> set evs. is_call_of i True ev" and "epoch_post i evs [] s r s'" by auto
  from all_sentinel_raises [OF this sen]
  show "r = Inl ZeroDivisionError" and "efficientBatchCnt s' = 0" by simp_all
qed

theorem all_nan_epoch_divides_by_zero_witness:
  "fst (epoch_focal demo_trainer 1 ((train_start 20 [2, 4] 0)\<lparr>use_grad := True\<rparr>))
     = Inl ZeroDivisionError
   \<and> efficientBatchCnt (snd (epoch_focal demo_trainer 1
        ((train_start 20 [2, 4] 0)\<lparr>use_grad := True\<rparr>))) = 0
   \<and> trace (snd (epoch_focal demo_trainer 1 ((train_start 20 [2, 4] 0)\<lparr>use_grad := True\<rparr>)))
     = [SolveCall 1 2 (None, None, Fin 0, Fin 2), SolveCall 1 4 (None, None, Fin 0, Fin 4)]
   \<and> fst (epoch_plain demo_trainer 0 (train_start 5 [2, 4] 0)) = Inl ZeroDivisionError"
proof -
  let ?s = "(train_start 20 [2, 4::nat] (0::nat))\<lparr>use_grad := True\<rparr>"
  let ?t = "train_start 5 [2, 4::nat] (0::nat)"
  let ?f = "epoch_focal demo_trainer 1 ?s"
  let ?p = "epoch_plain demo_trainer 0 ?t"
  have tf: "trace (snd ?f)
      = [SolveCall 1 2 (None, None, Fin 0, Fin 2), SolveCall 1 4 (None, None, Fin 0, Fin 4)]"
    by code_simp
  have tp: "trace (snd ?p)
      = [SolveCall 0 2 (None, None, Fin 0, Fin 2), SolveCall 0 4 (None, None, Fin 0, Fin 4)]"
    by code_simp
  have i1: "1 < length (procAvgLoss ?s)" and ug: "use_grad ?s"
    by (simp_all add: train_start_def)
  have sf: "\<forall>ev \<in> set (drop (length (trace ?s)) (trace (snd ?f))). returned_sentinel ev"
    unfolding tf by (simp add: train_start_def)
  from all_nan_epoch_divides_by_zero [of 1 ?s demo_trainer "fst ?f" "snd ?f"] i1 ug sf
  have 1: "fst ?f = Inl ZeroDivisionError \<and> efficientBatchCnt (snd ?f) = 0" by simp
  have i0: "0 < length (procAvgLoss ?t)" by (simp add: train_start_def)
  have sp: "\<forall>ev \<in> set (drop (length (trace ?t)) (trace (snd ?p))). returned_sentinel ev"
    unfolding tp by (simp add: train_start_def)
  from all_nan_epoch_divides_by_zero [of 0 ?t demo_trainer "fst ?p" "snd ?p"] i0 sp
  have 2: "fst ?p = Inl ZeroDivisionError" by simp
  from 1 2 tf show ?thesis by simp
qed

section \<open>Properties of the trajectory optimizer\<close>

text \<open>Steps that leave the archive and the best-so-far record alone.\<close>

lemma off_recordD:
  "off_record p \<Longrightarrow> p s = (r, s') \<Longrightarrow>
     archive s' = archive s \<and> best_action s' = best_action s \<and> best_loss s' = best_loss s \<and>
     evaluated s' = evaluated s \<and> cur_actions s' = cur_actions s"
  unfolding off_record_def by blast

lemma off_record_on_env: "off_record (on_env f)"
  by (simp add: off_record_def on_env_def modify_def archive_def)

lemma off_record_count_step: "off_record count_step"
  by (simp add: off_record_def count_step_def modify_def archive_def)

lemma off_record_lift: "off_record (lift_res x)"
  by (simp add: off_record_def lift_res_def)

lemma off_record_ret: "off_record (ret x)"
  by (simp add: off_record_def ret_def)

lemma off_record_bnd:
  assumes p: "off_record p" and q: "\<And>x. off_record (q x)"
  shows "off_record (bnd p q)"
  unfolding off_record_def
proof (intro allI impI)
  fix s r s'
  assume "bnd p q s = (r, s')"
  then show "archive s' = archive s \<and> best_action s' = best_action s \<and>
      best_loss s' = best_loss s \<and> evaluated s' = evaluated s \<and> cur_actions s' = cur_actions s"
  proof (cases rule: bnd_cases)
    case (raised e)
    with off_recordD [OF p] show ?thesis by blast
  next
    case (returned x s1)
    from off_recordD [OF p returned(1)] off_recordD [OF q returned(2)] show ?thesis by simp
  qed
qed

lemma off_record_for_each:
  assumes "\<And>x. off_record (body x)"
  shows "off_record (for_each xs body)"
  by (induction xs) (simp_all add: off_record_ret off_record_bnd assms)

lemma off_record_ensuring:
  assumes m: "off_record m" and fin: "off_record fin"
  shows "off_record (ensuring m fin)"
  unfolding off_record_def
proof (intro allI impI)
  fix s r t
  assume run: "ensuring m fin s = (r, t)"
  obtain r1 s1 where m1: "m s = (r1, s1)" by (cases "m s")
  obtain r2 s2 where f2: "fin s1 = (r2, s2)" by (cases "fin s1")
  from run m1 f2 have "t = s2" by (simp add: ensuring_def split: sum.splits)
  with off_recordD [OF m m1] off_recordD [OF fin f2]
  show "archive t = archive s \<and> best_action t = best_action s \<and>
      best_loss t = best_loss s \<and> evaluated t = evaluated s \<and> cur_actions t = cur_actions s"
    by simp
qed

lemma off_record_run_callbacks: "off_record (run_callbacks S loss grads)"
  unfolding run_callbacks_def
  by (rule off_record_for_each)
     (simp add: off_record_def modify_def archive_def split: prod.splits)

text \<open>The rollout under the tape, before its result is noted.\<close>

lemma sv_forward_run:
  assumes "sv_forward S e acts s = (r, s')"
  shows "archive s' = archive s \<and> best_action s' = best_action s \<and> best_loss s' = best_loss s \<and>
         cur_actions s' = cur_actions s \<and>
         ((\<exists>err. r = Inl err) \<and> evaluated s' = evaluated s
          \<or> (\<exists>loss grads. r = Inr (loss, grads) \<and> evaluated s' = evaluated s @ [(acts, loss)]))"
proof -
  let ?roll = "bnd (on_env (sv_set_state S e)) (\<lambda>u.
     bnd (on_env (sv_tape_enter S)) (\<lambda>u.
       ensuring
            (for_each [0 ..< length acts] (\<lambda>i.
               bnd (lift_res (py_nth acts i)) (\<lambda>a.
               bnd (on_env (sv_step S a)) (\<lambda>u.
               bnd count_step (\<lambda>u.
               on_env (sv_compute_loss S))))))
            (on_env (sv_tape_exit S))))"
  have roll: "off_record ?roll"
    by (intro off_record_bnd off_record_on_env off_record_ensuring off_record_for_each
        off_record_lift off_record_count_step)
  have eq: "sv_forward S e acts =
      bnd ?roll (\<lambda>u.
        bnd (gets (\<lambda>s. (sv_loss S (sim_env s), sv_get_grad S (length acts) (sim_env s))))
          (\<lambda>(loss, grads).
        bnd (modify (\<lambda>s. s\<lparr>evaluated := evaluated s @ [(acts, loss)]\<rparr>)) (\<lambda>u.
        ret (loss, grads))))"
    by (simp add: sv_forward_def bnd_def fun_eq_iff split: prod.splits sum.splits)
  from assms [unfolded eq] show ?thesis
  proof (cases rule: bnd_cases)
    case (raised err)
    with off_recordD [OF roll raised(1)] show ?thesis by simp
  next
    case (returned u s1)
    from returned(2) have "r = Inr (sv_loss S (sim_env s1), sv_get_grad S (length acts) (sim_env s1))"
      and "s' = s1\<lparr>evaluated := evaluated s1 @ [(acts, sv_loss S (sim_env s1))]\<rparr>"
      by (simp_all add: bnd_def gets_def modify_def ret_def)
    with off_recordD [OF roll returned(1)] show ?thesis by (simp add: archive_def)
  qed
qed

lemma same_record_trans: "same_record s s1 \<Longrightarrow> same_record s1 s' \<Longrightarrow> same_record s s'"
  by (simp add: same_record_def)

lemma archived_trans:
  "archived xs j s s1 \<Longrightarrow> archived ys k s1 s' \<Longrightarrow> archived (xs @ ys) (j + k) s s'"
  using upt_add_eq_append [of "pc_cnt s" "pc_cnt s + j" k]
  by (simp add: archived_def add.assoc)

lemma archived_same: "archive s1 = archive s \<Longrightarrow> archived xs k s1 s' \<Longrightarrow> archived xs k s s'"
  by (simp add: archived_def archive_def)

lemma nograd_body_run:
  assumes "i < length acts" and "nograd_body S acts i s = (r, s')"
  shows "r = Inr () \<and> archived [acts ! i] 1 s s' \<and> same_record s s'"
proof -
  from assms(2) have "r = fst (nograd_body S acts i s)" and "s' = snd (nograd_body S acts i s)"
    by simp_all
  with assms(1) show ?thesis
    by (simp add: nograd_body_def bnd_def save_current_state_def modify_def lift_res_def
        py_nth_def buffer_append_def on_env_def count_step_def count_pc_def archived_def
        same_record_def)
qed

lemma nograd_loop_run:
  assumes "for_each [0 ..< length acts] (nograd_body S acts) s = (r, s')"
  shows "r = Inr () \<and> archived acts (length acts) s s' \<and> same_record s s'"
proof -
  have "(r = Inr () \<and> archived (take (length acts) acts) (length acts) s s' \<and> same_record s s')
      \<or> ((\<exists>e. r = Inl e) \<and> False)"
  proof (rule for_each_upt [where a = 0 and k = 0 and n = "length acts"
        and I = "\<lambda>i t. archived (take i acts) i s t \<and> same_record s t" and E = "\<lambda>t. False"
        and body = "nograd_body S acts", OF _ _ _ _ assms])
    fix i t r1 t'
    assume i: "i < length acts" and inv: "archived (take i acts) i s t \<and> same_record s t"
      and run: "nograd_body S acts i t = (r1, t')"
    from nograd_body_run [OF i run]
    have "r1 = Inr ()" and st: "archived [acts ! i] 1 t t'" and sr: "same_record t t'"
      by simp_all
    with archived_trans [OF conjunct1 [OF inv] st] same_record_trans [OF conjunct2 [OF inv] sr] i
    show "(r1 = Inr () \<and> archived (take (Suc i) acts) (Suc i) s t' \<and> same_record s t')
        \<or> ((\<exists>e. r1 = Inl e) \<and> False)"
      by (simp add: take_Suc_conv_app_nth)
  qed (simp_all add: archived_def same_record_def)
  then show ?thesis by simp
qed

lemma forward_nograd_run:
  assumes "forward_nograd S e acts s = (r, s')"
  shows "same_record s s' \<and>
       ((acts = [] \<and> r = Inl UnboundLocalError \<and> archived [] 0 s s')
        \<or> (acts \<noteq> [] \<and> r = Inr () \<and>
            archived (acts @ [zeros_like (last acts)]) (length acts + 1) s s'))"
proof -
  let ?s0 = "s\<lparr>sim_env := sv_set_state S e (sim_env s)\<rparr>"
  have a0: "archived [] 0 s ?s0" and r0: "same_record s ?s0"
    by (simp_all add: archived_def same_record_def)
  let ?rest = "\<lambda>u::unit. bnd (lift_res (after_loop_item acts)) (\<lambda>a.
     bnd (buffer_append (zeros_like a)) (\<lambda>u. bnd save_current_state (\<lambda>u. count_pc)))"
  from assms have "bnd (for_each [0 ..< length acts] (nograd_body S acts)) ?rest ?s0 = (r, s')"
    by (simp add: forward_nograd_def bnd_def on_env_def modify_def)
  then show ?thesis
  proof (cases rule: bnd_cases)
    case (raised err)
    with nograd_loop_run [OF raised(1)] show ?thesis by simp
  next
    case (returned u s1)
    from nograd_loop_run [OF returned(1)]
    have a1: "archived acts (length acts) ?s0 s1" and r1: "same_record ?s0 s1" by simp_all
    from archived_trans [OF a0 a1] have a: "archived acts (length acts) s s1" by simp
    from same_record_trans [OF r0 r1] have sr: "same_record s s1" .
    from returned(2) have rs: "r = fst (?rest u s1)" "s' = snd (?rest u s1)" by simp_all
    show ?thesis
    proof (cases "acts = []")
      case True
      with rs have "r = Inl UnboundLocalError" and "s' = s1"
        by (simp_all add: bnd_def lift_res_def after_loop_item_def)
      with a sr True show ?thesis by simp
    next
      case False
      with rs have "r = Inr ()" and a2: "archived [zeros_like (last acts)] 1 s1 s'"
        and r2: "same_record s1 s'"
        by (simp_all add: bnd_def lift_res_def after_loop_item_def buffer_append_def modify_def
            save_current_state_def count_pc_def archived_def same_record_def)
      with archived_trans [OF a a2] same_record_trans [OF sr r2] False show ?thesis by simp
    qed
  qed
qed

lemma iteration_run:
  assumes "iteration S e it s = (Inr (), s')"
  shows "iterated s s'"
proof -
  from assms have "bnd (sv_forward S e (cur_actions s)) (\<lambda>(loss, grads).
     bnd (keep_best (cur_actions s) loss) (\<lambda>u.
     bnd (take_step S grads) (\<lambda>u.
     bnd (run_callbacks S loss grads) (\<lambda>u.
     bnd (gets cur_actions) (\<lambda>acts'.
     forward_nograd S e acts'))))) s = (Inr (), s')"
    by (simp add: iteration_def bnd_def gets_def)
  then show ?thesis
  proof (cases rule: bnd_cases)
    case (returned x s1)
    obtain loss grads where x: "x = (loss, grads)" by (cases x)
    from sv_forward_run [OF returned(1)] x
    have f: "archive s1 = archive s" "best_action s1 = best_action s" "best_loss s1 = best_loss s"
      "cur_actions s1 = cur_actions s" "evaluated s1 = evaluated s @ [(cur_actions s, loss)]"
      by simp_all
    let ?s2 = "if flt loss (best_loss s1)
               then s1\<lparr>best_loss := loss, best_action := Some (cur_actions s)\<rparr> else s1"
    let ?s3 = "case optim_step S grads (opt ?s2) of (a, p) \<Rightarrow> ?s2\<lparr>cur_actions := a, opt := p\<rparr>"
    from returned(2) x
    have "bnd (run_callbacks S loss grads) (\<lambda>u. bnd (gets cur_actions) (forward_nograd S e)) ?s3
            = (Inr (), s')"
      by (simp add: bnd_def keep_best_def take_step_def modify_def)
    then show ?thesis
    proof (cases rule: bnd_cases)
      case (returned u s4)
      from off_recordD [OF off_record_run_callbacks returned(1)]
      have c: "archive s4 = archive ?s3" "best_action s4 = best_action ?s3"
        "best_loss s4 = best_loss ?s3" "evaluated s4 = evaluated ?s3"
        "cur_actions s4 = cur_actions ?s3" by simp_all
      from returned(2) have fn: "forward_nograd S e (cur_actions s4) s4 = (Inr (), s')"
        by (simp add: bnd_def gets_def)
      from forward_nograd_run [OF fn]
      have sr: "same_record s4 s'" and ne: "cur_actions s4 \<noteq> []"
        and ar: "archived (cur_actions s4 @ [zeros_like (last (cur_actions s4))])
                   (length (cur_actions s4) + 1) s4 s'"
        by auto
      have a3: "archive ?s3 = archive s"
        using f(1) by (simp add: archive_def split: prod.splits)
      have b3: "best_loss ?s3 = (if flt loss (best_loss s) then loss else best_loss s)"
        "best_action ?s3 = (if flt loss (best_loss s) then Some (cur_actions s) else best_action s)"
        "evaluated ?s3 = evaluated s @ [(cur_actions s, loss)]"
        using f by (simp_all split: prod.splits)
      from sr have cur: "cur_actions s' = cur_actions s4" by (simp add: same_record_def)
      from c(1) a3 have "archive s4 = archive s" by simp
      from archived_same [OF this ar] cur ne sr c b3 show ?thesis
        unfolding iterated_def same_record_def by auto
    qed simp
  qed simp
qed


lemma flt_trans: "flt a b \<Longrightarrow> flt b c \<Longrightarrow> flt a c"
  by (cases a; cases b; cases c) simp_all

lemma flt_below: "flt l b \<Longrightarrow> \<not> flt x b \<Longrightarrow> isnan x \<or> flt l x"
  by (cases l; cases b; cases x) simp_all

lemma flt_not_below: "flt l b \<Longrightarrow> \<not> flt x b \<Longrightarrow> \<not> flt x l"
  by (cases l; cases b; cases x) simp_all

lemma aligned_step:
  assumes "aligned s" and "archived new k s s'" and "length new = k"
  shows "aligned s'"
  using assms upt_add_eq_append [of 0 "pc_cnt s" k]
  by (simp add: aligned_def archived_def)

lemma best_of_step:
  assumes inv: "best_of ba bl ev"
  shows "best_of (if flt l bl then Some a else ba) (if flt l bl then l else bl) (ev @ [(a, l)])"
proof (cases "flt l bl")
  case True
  from inv have below: "flt l (Fin (10 ^ 10))"
    unfolding best_of_def using True by (auto intro: flt_trans)
  from inv [unfolded best_of_def] have "\<forall>x \<in> set ev. isnan (snd x) \<or> flt l (snd x)"
  proof (elim disjE conjE exE)
    assume "bl = Fin (10 ^ 10)" and "\<forall>x \<in> set ev. \<not> flt (snd x) (Fin (10 ^ 10))"
    with True show ?thesis by (auto dest: flt_below)
  next
    fix pre a' post
    assume ev: "ev = pre @ (a', bl) # post"
      and pre: "\<forall>x \<in> set pre. isnan (snd x) \<or> flt bl (snd x)"
      and post: "\<forall>x \<in> set post. \<not> flt (snd x) bl"
    show ?thesis
    proof
      fix x assume "x \<in> set ev"
      with ev consider "x \<in> set pre" | "x = (a', bl)" | "x \<in> set post" by auto
      then show "isnan (snd x) \<or> flt l (snd x)"
      proof cases
        case 1
        with pre True show ?thesis by (blast intro: flt_trans)
      next
        case 2
        with True show ?thesis by simp
      next
        case 3
        with post True show ?thesis by (blast dest: flt_below)
      qed
    qed
  qed
  with True below show ?thesis
    unfolding best_of_def
    by (intro disjI2 exI [where x = ev] exI [where x = a] exI [where x = "[]"]) simp
next
  case False
  from inv [unfolded best_of_def] show ?thesis
  proof (elim disjE conjE exE)
    assume "ba = None" "bl = Fin (10 ^ 10)" "\<forall>x \<in> set ev. \<not> flt (snd x) (Fin (10 ^ 10))"
    with False have "best_of ba bl (ev @ [(a, l)])"
      by (simp add: best_of_def)
    with False show "best_of (if flt l bl then Some a else ba) (if flt l bl then l else bl)
        (ev @ [(a, l)])" by simp
  next
    fix pre a' post
    assume "ba = Some a'" "ev = pre @ (a', bl) # post" "flt bl (Fin (10 ^ 10))"
      "\<forall>x \<in> set pre. isnan (snd x) \<or> flt bl (snd x)" "\<forall>x \<in> set post. \<not> flt (snd x) bl"
    with False have "best_of ba bl (ev @ [(a, l)])"
      unfolding best_of_def
      by (intro disjI2 exI [where x = pre] exI [where x = a'] exI [where x = "post @ [(a, l)]"])
         simp
    with False show "best_of (if flt l bl then Some a else ba) (if flt l bl then l else bl)
        (ev @ [(a, l)])" by simp
  qed
qed

lemma solve_inv_start: "solve_inv (search_start e a p)"
  by (simp add: solve_inv_def aligned_def best_of_def search_start_def)

lemma solve_inv_step:
  assumes inv: "solve_inv s" and run: "iteration S e it s = (Inr (), s')"
  shows "solve_inv s'"
proof -
  from iteration_run [OF run] obtain loss
    where ev: "evaluated s' = evaluated s @ [(cur_actions s, loss)]"
      and bl: "best_loss s' = (if flt loss (best_loss s) then loss else best_loss s)"
      and ba: "best_action s' = (if flt loss (best_loss s) then Some (cur_actions s) else best_action s)"
      and ar: "archived (cur_actions s' @ [zeros_like (last (cur_actions s'))])
                 (length (cur_actions s') + 1) s s'"
    unfolding iterated_def by blast
  from inv have "aligned s" and b: "best_of (best_action s) (best_loss s) (evaluated s)"
    by (simp_all add: solve_inv_def)
  from aligned_step [OF this(1) ar] have "aligned s'" by simp
  moreover from best_of_step [OF b, of loss "cur_actions s"] ev bl ba
  have "best_of (best_action s') (best_loss s') (evaluated s')" by simp
  ultimately show ?thesis by (simp add: solve_inv_def)
qed

lemma solve_loop:
  assumes "for_each [0 ..< n] (iteration S e) (search_start e a p) = (Inr (), s')"
  shows "solve_inv s'"
proof -
  have step: "(r = Inr () \<and> solve_inv t') \<or> ((\<exists>err. r = Inl err) \<and> True)"
    if "(0::nat) \<le> i" "i < n" "solve_inv t" "iteration S e i t = (r, t')" for i t r t'
  proof (cases r)
    case (Inr u)
    with that solve_inv_step [of t S e i t'] show ?thesis by simp
  qed simp
  have "((Inr () :: py_error + unit) = Inr () \<and> solve_inv s') \<or>
      ((\<exists>err. (Inr () :: py_error + unit) = Inl err) \<and> True)"
    by (rule for_each_upt [where a = 0 and I = "\<lambda>i. solve_inv" and E = "\<lambda>t. True"
      and body = "iteration S e" and n = n and k = 0, OF step _ _ solve_inv_start assms])
      simp_all
  then show ?thesis by simp
qed

lemma solve_run_result:
  assumes "solve_run S e (search_start e a p) = (Inr out, s')"
  shows "out = best_action s' \<and> saved_actions s' = Some (action_buffer s') \<and>
         aligned s' \<and> best_of (best_action s') (best_loss s') (evaluated s')"
  using assms unfolding solve_run_def
proof (cases rule: bnd_cases)
  case (returned u s1)
  from returned(1) have "for_each [0 ..< n_iters S] (iteration S e) (search_start e a p) = (Inr (), s1)"
    by simp
  from solve_loop [OF this] have inv: "solve_inv s1" .
  from returned(2) have "out = best_action s1"
    and "s' = s1\<lparr>sim_env := sv_restore S e (sim_env s1), saved_actions := Some (action_buffer s1)\<rparr>"
    by (simp_all add: bnd_def on_env_def modify_def gets_def)
  with inv show ?thesis by (simp add: solve_inv_def aligned_def)
qed simp

lemma solveE:
  assumes "solve S init e = Inr (r, s')"
  obtains a p where "solve_run S e (search_start e a p) = (r, s')"
  using assms by (auto simp: solve_def split: sum.splits prod.splits)

lemma demo_solve_run:
  "solve (demo_searcher 3) None (Fin 0) =
     Inr (Inr (Some [[Fin 3]]),
       \<lparr> sim_env = Fin 0, opt = 3, total_steps = 6, pc_cnt = 6,
         action_buffer = [[Fin 3], [Fin 0], [Fin 7], [Fin 0], [Fin 4], [Fin 0]],
         saved_states = [(0, Fin 0), (1, Fin 3), (2, Fin 0), (3, Fin 7), (4, Fin 0), (5, Fin 4)],
         best_action = Some [[Fin 3]], best_loss = Fin 3, cur_actions = [[Fin 4]],
         evaluated = [([[Fin 5]], Fin 5), ([[Fin 3]], Fin 3), ([[Fin 7]], Fin 7)],
         saved_actions = Some [[Fin 3], [Fin 0], [Fin 7], [Fin 0], [Fin 4], [Fin 0]] \<rparr>)"
  by code_simp

text \<open>
  C7. When \<^verbatim>\<open>solve\<close> completes, the snapshots saved are as many as the actions of
  the saved action array, and they are saved under the numbers 0, 1, ... in this order;
  the array saved is the action buffer. Each archiving pass \<^verbatim>\<open>forward_nograd\<close> that
  returns appends the actions it is given and one trailing zero vector, and saves one
  snapshot more than it is given actions.
\<close>

theorem archive_aligned:
  "(solve S init e = Inr (Inr out, s') \<longrightarrow>
      length (saved_states s') = length (action_buffer s') \<and>
      map fst (saved_states s') = [0 ..< length (saved_states s')] \<and>
      saved_actions s' = Some (action_buffer s'))
   \<and> (forward_nograd S e acts s = (Inr (), t) \<longrightarrow>
      action_buffer t = action_buffer s @ acts @ [zeros_like (last acts)] \<and>
      length (saved_states t) = length (saved_states s) + (length acts + 1))"
proof (intro conjI impI)
  assume "solve S init e = Inr (Inr out, s')"
  then obtain a p where "solve_run S e (search_start e a p) = (Inr out, s')" by (rule solveE)
  from solve_run_result [OF this]
  have al: "aligned s'" and sa: "saved_actions s' = Some (action_buffer s')" by simp_all
  from al have n: "length (saved_states s') = pc_cnt s'"
    using length_map [of fst "saved_states s'"] by (simp add: aligned_def)
  with al show "length (saved_states s') = length (action_buffer s')"
    and "map fst (saved_states s') = [0 ..< length (saved_states s')]"
    by (simp_all add: aligned_def)
  from sa show "saved_actions s' = Some (action_buffer s')" .
next
  assume "forward_nograd S e acts s = (Inr (), t)"
  from forward_nograd_run [OF this]
  have ar: "archived (acts @ [zeros_like (last acts)]) (length acts + 1) s t" by simp
  then show "action_buffer t = action_buffer s @ acts @ [zeros_like (last acts)]"
    by (simp add: archived_def)
  from ar have "length (map fst (saved_states t))
      = length (map fst (saved_states s) @ [pc_cnt s ..< pc_cnt s + (length acts + 1)])"
    by (simp add: archived_def)
  then show "length (saved_states t) = length (saved_states s) + (length acts + 1)"
    by simp
qed

theorem archive_aligned_witness:
  "length (saved_states (snd (projr (solve (demo_searcher 3) None (Fin 0))))) = 6
   \<and> length (action_buffer (snd (projr (solve (demo_searcher 3) None (Fin 0))))) = 6
   \<and> map fst (saved_states (snd (projr (solve (demo_searcher 3) None (Fin 0)))))
       = [0, 1, 2, 3, 4, 5]
   \<and> saved_actions (snd (projr (solve (demo_searcher 3) None (Fin 0))))
       = Some [[Fin 3], [Fin 0], [Fin 7], [Fin 0], [Fin 4], [Fin 0]]
   \<and> action_buffer (snd (forward_nograd (demo_searcher 3) (Fin 0) [[Fin 1], [Fin 2]]
        (search_start (Fin 0) [] 0))) = [[Fin 1], [Fin 2], [Fin 0]]
   \<and> length (saved_states (snd (forward_nograd (demo_searcher 3) (Fin 0) [[Fin 1], [Fin 2]]
        (search_start (Fin 0) [] 0)))) = 3"
proof -
  let ?r = "solve (demo_searcher 3) None (Fin 0)"
  let ?s = "search_start (Fin 0) [] (0::nat)"
  let ?f = "forward_nograd (demo_searcher 3) (Fin 0) [[Fin 1], [Fin 2]] ?s"
  have run: "?r = Inr (Inr (Some [[Fin 3]]), snd (projr ?r))"
    and n: "length (saved_states (snd (projr ?r))) = 6"
    and buf: "action_buffer (snd (projr ?r))
      = [[Fin 3], [Fin 0], [Fin 7], [Fin 0], [Fin 4], [Fin 0]]"
    by (simp_all add: demo_solve_run)
  have "fst ?f = Inr ()" by code_simp
  then have pass: "?f = (Inr (), snd ?f)" by (simp add: prod_eq_iff)
  from archive_aligned [of "demo_searcher 3" None "Fin 0" "Some [[Fin 3]]" "snd (projr ?r)",
      THEN conjunct1, THEN mp, OF run] n
  have 1: "length (action_buffer (snd (projr ?r))) = 6"
    and 2: "map fst (saved_states (snd (projr ?r))) = [0 ..< 6]"
    and 3: "saved_actions (snd (projr ?r)) = Some (action_buffer (snd (projr ?r)))"
    by simp_all
  have 5: "[0 ..< 6] = [0, 1, 2, 3, 4, 5::nat]" by (simp add: upt_rec)
  from archive_aligned [of "demo_searcher 3" _ "Fin 0" _ _ "[[Fin 1], [Fin 2]]" ?s "snd ?f",
      THEN conjunct2, THEN mp, OF pass]
  have 6: "action_buffer (snd ?f) = [[Fin 1], [Fin 2], [Fin 0]]"
    and 7: "length (saved_states (snd ?f)) = 3"
    by (simp_all add: search_start_def zeros_like_def)
  from n 1 2 3 buf 5 6 7 show ?thesis by simp
qed

text \<open>
  C5, amended. \<^verbatim>\<open>best_loss\<close> starts at \<open>1e10\<close> and an iteration leaves it or makes it
  smaller. When \<^verbatim>\<open>solve\<close> completes, it returns the first iterate whose rollout loss is
  least among the losses below \<open>1e10\<close>: no iterate has a smaller loss, and those rolled
  out before it have a greater loss, or NaN. It returns \<^verbatim>\<open>None\<close> when no rollout has a
  loss below \<open>1e10\<close>.
\<close>

theorem best_so_far_returned:
  "(solve S init e = Inr (Inr out, s') \<longrightarrow>
      (out = None \<and> (\<forall>x \<in> set (evaluated s'). \<not> flt (snd x) (Fin (10 ^ 10))))
      \<or> (\<exists>pre a l post. out = Some a \<and> evaluated s' = pre @ (a, l) # post \<and>
            flt l (Fin (10 ^ 10)) \<and>
            (\<forall>x \<in> set pre. isnan (snd x) \<or> flt l (snd x)) \<and>
            (\<forall>x \<in> set post. \<not> flt (snd x) l)))
   \<and> (iteration S e it s = (Inr (), t) \<longrightarrow>
      best_loss t = best_loss s \<or> flt (best_loss t) (best_loss s))"
proof (intro conjI impI)
  assume "solve S init e = Inr (Inr out, s')"
  then obtain a p where "solve_run S e (search_start e a p) = (Inr out, s')" by (rule solveE)
  from solve_run_result [OF this]
  have "out = best_action s'" and "best_of (best_action s') (best_loss s') (evaluated s')"
    by simp_all
  then show "(out = None \<and> (\<forall>x \<in> set (evaluated s'). \<not> flt (snd x) (Fin (10 ^ 10))))
      \<or> (\<exists>pre a l post. out = Some a \<and> evaluated s' = pre @ (a, l) # post \<and>
            flt l (Fin (10 ^ 10)) \<and>
            (\<forall>x \<in> set pre. isnan (snd x) \<or> flt l (snd x)) \<and>
            (\<forall>x \<in> set post. \<not> flt (snd x) l))"
    unfolding best_of_def by (elim conjE disjE exE) (simp, blast)
next
  assume "iteration S e it s = (Inr (), t)"
  from iteration_run [OF this] show "best_loss t = best_loss s \<or> flt (best_loss t) (best_loss s)"
    unfolding iterated_def by auto
qed

theorem best_so_far_returned_witness:
  "fst (projr (solve (demo_searcher 3) None (Fin 0))) = Inr (Some [[Fin 3]])
   \<and> evaluated (snd (projr (solve (demo_searcher 3) None (Fin 0))))
       = [([[Fin 5]], Fin 5), ([[Fin 3]], Fin 3), ([[Fin 7]], Fin 7)]
   \<and> cur_actions (snd (projr (solve (demo_searcher 3) None (Fin 0)))) = [[Fin 4]]
   \<and> (\<exists>pre l post. evaluated (snd (projr (solve (demo_searcher 3) None (Fin 0))))
         = pre @ ([[Fin 3]], l) # post \<and> flt l (Fin (10 ^ 10)) \<and>
         list_all (\<lambda>x. isnan (snd x) \<or> flt l (snd x)) pre \<and>
         list_all (\<lambda>x. \<not> flt (snd x) l) post)
   \<and> best_loss (snd (iteration (demo_searcher 3) (Fin 0) 0 (search_start (Fin 0) [[Fin 5]] 0)))
       = Fin 5
   \<and> flt (Fin 5) (best_loss (search_start (Fin 0) [[Fin 5]] (0::nat)))"
proof -
  let ?r = "solve (demo_searcher 3) None (Fin 0)"
  let ?s = "search_start (Fin 0) [[Fin 5]] (0::nat)"
  let ?i = "iteration (demo_searcher 3) (Fin 0) 0 ?s"
  have run: "?r = Inr (Inr (Some [[Fin 3]]), snd (projr ?r))"
    and out: "fst (projr ?r) = Inr (Some [[Fin 3]])"
    and ev: "evaluated (snd (projr ?r))
      = [([[Fin 5]], Fin 5), ([[Fin 3]], Fin 3), ([[Fin 7]], Fin 7)]"
    and cur: "cur_actions (snd (projr ?r)) = [[Fin 4]]"
    by (simp_all add: demo_solve_run)
  have "fst ?i = Inr () \<and> best_loss (snd ?i) = Fin 5" by code_simp
  then have it: "?i = (Inr (), snd ?i)" and bl: "best_loss (snd ?i) = Fin 5"
    by (simp_all add: prod_eq_iff)
  from best_so_far_returned [of "demo_searcher 3" None "Fin 0" "Some [[Fin 3]]" "snd (projr ?r)",
      THEN conjunct1, THEN mp, OF run]
  have 1: "\<exists>pre l post. evaluated (snd (projr ?r)) = pre @ ([[Fin 3]], l) # post \<and>
      flt l (Fin (10 ^ 10)) \<and> list_all (\<lambda>x. isnan (snd x) \<or> flt l (snd x)) pre \<and>
      list_all (\<lambda>x. \<not> flt (snd x) l) post"
    by (simp add: list_all_iff)
  from best_so_far_returned [of "demo_searcher 3" _ "Fin 0" _ _ 0 ?s "snd ?i",
      THEN conjunct2, THEN mp, OF it] bl
  have 2: "flt (Fin 5) (best_loss ?s)" by (simp add: search_start_def)
  from out ev cur 1 2 bl show ?thesis by simp
qed

text \<open>
  The claim as it stands fails where no loss is below the start value \<open>1e10\<close> of
  \<^verbatim>\<open>best_loss\<close>: one iteration from an iterate of loss \<open>2e10\<close> returns \<^verbatim>\<open>None\<close>, not
  the iterate rolled out.
\<close>

theorem best_so_far_claim_counterexample:
  "solve_returns (demo_searcher 1) (Some [[Fin (2 * 10 ^ 10)]]) (Fin 0) = Inr None
   \<and> solve_evaluated (demo_searcher 1) (Some [[Fin (2 * 10 ^ 10)]]) (Fin 0)
       = [([[Fin (2 * 10 ^ 10)]], Fin (2 * 10 ^ 10))]"
  by code_simp

end
